theory Spec2Isabelle
  imports Main "HOL-Library.Word" "HOL-Library.AList" "HOL-Library.Multiset"
begin

section \<open>JavaScript strings\<close>

text \<open>
  A JavaScript string is a sequence of 16-bit code units. \<open>js\<close> writes an ASCII literal
  of the source as such a sequence.
\<close>

type_synonym jschar = "16 word"
type_synonym jsstring = "jschar list"

definition js :: "string \<Rightarrow> jsstring" where
  "js s = map (\<lambda>c. of_nat (of_char c)) s"

text \<open>
  ECMAScript's LineTerminator and WhiteSpace productions. The regular expression class
  \<open>\s\<close> and \<open>String.prototype.trim\<close> both use their union; the assertions \<open>^\<close> and
  \<open>$\<close> of a multiline regular expression look for a LineTerminator.
\<close>

definition is_line_terminator :: "jschar \<Rightarrow> bool" where
  "is_line_terminator c \<longleftrightarrow> c = 0x0A \<or> c = 0x0D \<or> c = 0x2028 \<or> c = 0x2029"

definition is_white_space :: "jschar \<Rightarrow> bool" where
  "is_white_space c \<longleftrightarrow>
     c = 0x09 \<or> c = 0x0B \<or> c = 0x0C \<or> c = 0x20 \<or> c = 0xA0 \<or> c = 0x1680 \<or>
     (0x2000 \<le> c \<and> c \<le> 0x200A) \<or> c = 0x202F \<or> c = 0x205F \<or> c = 0x3000 \<or>
     c = 0xFEFF"

definition is_space :: "jschar \<Rightarrow> bool" where
  "is_space c \<longleftrightarrow> is_white_space c \<or> is_line_terminator c"

text \<open>\<open>s.trim()\<close>, \<open>s.split('\n')\<close> and \<open>a.join('\n')\<close>.\<close>

definition trim :: "jsstring \<Rightarrow> jsstring" where
  "trim s = rev (dropWhile is_space (rev (dropWhile is_space s)))"

fun split_newline :: "jsstring \<Rightarrow> jsstring list" where
  "split_newline [] = [[]]"
| "split_newline (c # cs) =
     (if c = 0x0A then [] # split_newline cs
      else (case split_newline cs of
              [] \<Rightarrow> [[c]]
            | l # ls \<Rightarrow> (c # l) # ls))"

fun join_newline :: "jsstring list \<Rightarrow> jsstring" where
  "join_newline [] = []"
| "join_newline [l] = l"
| "join_newline (l # ls) = l @ 0x0A # join_newline ls"

section \<open>The marker pattern\<close>

text \<open>
  \<^verbatim>\<open>private static readonly CAR_REGEX = /^(\s*)Car\(\);\s*$/gm;\<close>

  The pattern is matched the way a backtracking matcher does. A greedy \<open>\s*\<close> first tries
  to take one more character and to match what follows; when that fails it gives the
  character back and tries what follows at once. \<open>\s\<close> also takes line terminators, so
  a match may run over blank lines. Every function returns the text it matched and the rest
  of the input.
\<close>

definition CAR_MARKER :: jsstring where
  "CAR_MARKER = js ''Car();''"

text \<open>The assertion \<open>$\<close> under the flag \<open>m\<close>: the end of the input, or a line terminator next.\<close>

fun at_line_end :: "jsstring \<Rightarrow> bool" where
  "at_line_end [] = True"
| "at_line_end (c # cs) = is_line_terminator c"

text \<open>\<open>\s*$\<close>\<close>

fun match_trailing :: "jsstring \<Rightarrow> (jsstring \<times> jsstring) option" where
  "match_trailing [] = Some ([], [])"
| "match_trailing (c # cs) =
     (if is_space c then
        (case match_trailing cs of
           Some (w, r) \<Rightarrow> Some (c # w, r)
         | None \<Rightarrow> if at_line_end (c # cs) then Some ([], c # cs) else None)
      else if at_line_end (c # cs) then Some ([], c # cs) else None)"

text \<open>\<open>Car\(\);\s*$\<close>\<close>

definition match_token :: "jsstring \<Rightarrow> (jsstring \<times> jsstring) option" where
  "match_token s =
     (if take (length CAR_MARKER) s = CAR_MARKER then
        (case match_trailing (drop (length CAR_MARKER) s) of
           Some (w, r) \<Rightarrow> Some (CAR_MARKER @ w, r)
         | None \<Rightarrow> None)
      else None)"

text \<open>
  \<open>(\s*)Car\(\);\s*$\<close>, tried at a position where \<open>^\<close> holds. The result is the capture
  group (the callback's \<open>indent\<close>), the whole match and the rest of the input.
\<close>

fun match_car :: "jsstring \<Rightarrow> (jsstring \<times> jsstring \<times> jsstring) option" where
  "match_car [] =
     (case match_token [] of Some (m, r) \<Rightarrow> Some ([], m, r) | None \<Rightarrow> None)"
| "match_car (c # cs) =
     (if is_space c then
        (case match_car cs of
           Some (ind, m, r) \<Rightarrow> Some (c # ind, c # m, r)
         | None \<Rightarrow>
             (case match_token (c # cs) of Some (m, r) \<Rightarrow> Some ([], m, r) | None \<Rightarrow> None))
      else (case match_token (c # cs) of Some (m, r) \<Rightarrow> Some ([], m, r) | None \<Rightarrow> None))"

lemma match_trailing_length:
  "match_trailing s = Some (w, r) \<Longrightarrow> length w + length r = length s"
  by (induction s arbitrary: w r) (auto split: if_splits option.splits)

lemma match_token_length:
  "match_token s = Some (m, r) \<Longrightarrow> length m + length r = length s \<and> length CAR_MARKER \<le> length m"
proof -
  assume a: "match_token s = Some (m, r)"
  then have t: "take (length CAR_MARKER) s = CAR_MARKER"
    by (auto simp: match_token_def split: if_splits)
  from a t obtain w where w: "match_trailing (drop (length CAR_MARKER) s) = Some (w, r)"
    and m: "m = CAR_MARKER @ w"
    by (auto simp: match_token_def split: option.splits)
  have "length CAR_MARKER \<le> length s"
    using t by (metis length_take min.cobounded1 min_def nat_le_linear take_all)
  with match_trailing_length [OF w] m show ?thesis by simp
qed

lemma match_car_length:
  "match_car s = Some (ind, m, r) \<Longrightarrow> length m + length r = length s \<and> length CAR_MARKER \<le> length m"
proof (induction s arbitrary: ind m r)
  case Nil
  then show ?case by (auto split: option.splits dest: match_token_length)
next
  case (Cons c cs)
  show ?case
  proof (cases "is_space c \<and> match_car cs \<noteq> None")
    case True
    then obtain i' m' r' where s: "match_car cs = Some (i', m', r')" by auto
    with True Cons.prems have "m = c # m'" "r = r'" by auto
    with Cons.IH [OF s] show ?thesis by simp
  next
    case False
    with Cons.prems have "match_token (c # cs) = Some (m, r)"
      by (auto split: option.splits if_splits)
    then show ?thesis by (rule match_token_length)
  qed
qed

lemma CAR_MARKER_length: "length CAR_MARKER = 6"
  by (simp add: CAR_MARKER_def js_def)

text \<open>
  A global (\<open>g\<close>) regular expression is run over the whole input, from \<open>lastIndex = 0\<close>:
  \<open>String.prototype.match\<close> and \<open>String.prototype.replace\<close> both find the leftmost match,
  go on from its end, and move one code unit on where there is none. \<open>^\<close> holds at the
  start of the input and behind a line terminator (the flag \<open>m\<close>): the first argument says
  whether it holds where the rest begins. The input becomes a list of segments, in order:
  a code unit that no match covers, or a match with its capture group.
\<close>

datatype segment = Unmatched jschar | Matched jsstring jsstring

function exec_all :: "bool \<Rightarrow> jsstring \<Rightarrow> segment list" where
  "exec_all bol s =
     (case (if bol then match_car s else None) of
        Some (ind, m, r) \<Rightarrow> Matched ind m # exec_all (is_line_terminator (last m)) r
      | None \<Rightarrow>
          (case s of
             [] \<Rightarrow> []
           | c # cs \<Rightarrow> Unmatched c # exec_all (is_line_terminator c) cs))"
  by pat_completeness auto
termination
  by (relation "measure (\<lambda>(bol, s). length s)")
     (auto split: if_splits dest!: match_car_length simp: CAR_MARKER_length)

declare exec_all.simps [simp del]

text \<open>\<open>originalContent.match(this.CAR_REGEX)\<close>: the matches, or \<open>null\<close> when there is none.\<close>

definition String_match :: "jsstring \<Rightarrow> jsstring list option" where
  "String_match s =
     (let ms = concat (map (\<lambda>g. case g of Unmatched c \<Rightarrow> [] | Matched ind m \<Rightarrow> [m]) (exec_all True s))
      in if ms = [] then None else Some ms)"

text \<open>
  \<open>s.replace(this.CAR_REGEX, callback)\<close>: all the matches are found first; then the
  callback is called on each, in order, with the match and its capture group, and the
  output is the input with each match replaced by what the callback returned. The callback
  of the source reads and writes a variable of the enclosing function, so it takes and
  returns a state here.
\<close>

fun replace_segments ::
  "(jsstring \<Rightarrow> jsstring \<Rightarrow> 's \<Rightarrow> jsstring \<times> 's) \<Rightarrow> segment list \<Rightarrow> 's \<Rightarrow> jsstring \<times> 's" where
  "replace_segments cb [] st = ([], st)"
| "replace_segments cb (Unmatched c # gs) st =
     (let (out, st') = replace_segments cb gs st in (c # out, st'))"
| "replace_segments cb (Matched ind m # gs) st =
     (let (rep, st1) = cb m ind st;
          (out, st') = replace_segments cb gs st1
      in (rep @ out, st'))"

definition String_replace ::
  "(jsstring \<Rightarrow> jsstring \<Rightarrow> 's \<Rightarrow> jsstring \<times> 's) \<Rightarrow> jsstring \<Rightarrow> 's \<Rightarrow> jsstring \<times> 's" where
  "String_replace cb s st = replace_segments cb (exec_all True s) st"

section \<open>Configuration and outcome\<close>

text \<open>
  \<^verbatim>\<open>export type PatchConfig = { patches: string[]; randomizeOrder?: boolean;
    addFakePatches?: boolean; preserveOriginal?: boolean; };\<close>
  An optional flag that is absent is \<open>None\<close>; \<open>if (flag)\<close> holds for \<open>Some True\<close> only.
\<close>

record PatchConfig =
  patches :: "jsstring list"
  randomizeOrder :: "bool option"
  addFakePatches :: "bool option"
  preserveOriginal :: "bool option"

definition truthy :: "bool option \<Rightarrow> bool" where
  "truthy b = (b = Some True)"

text \<open>
  \<^verbatim>\<open>export type PatchResult = { originalFile: string; patchedFile: string;
    patchesApplied: number; executionResult?: any; errors?: string[]; };\<close>
\<close>

record 'v PatchResult =
  originalFile :: jsstring
  patchedFile :: jsstring
  patchesApplied :: nat
  executionResult :: "'v option"
  errors :: "jsstring list option"

text \<open>A thrown \<open>Error\<close>, with its message.\<close>

datatype js_error = Error jsstring

fun message :: "js_error \<Rightarrow> jsstring" where
  "message (Error m) = m"

section \<open>Applying the patches\<close>

text \<open>
  Lines 82 to 85 of \<open>carPatcher.ts\<close>:
  \<^verbatim>\<open>patch.split('\n').map(line => line.trim() ? indent + line : line).join('\n')\<close>
\<close>

definition indentPatch :: "jsstring \<Rightarrow> jsstring \<Rightarrow> jsstring" where
  "indentPatch indent patch =
     join_newline (map (\<lambda>line. if trim line \<noteq> [] then indent @ line else line) (split_newline patch))"

text \<open>
  The callback of lines 75 to 91. Its state is the variable \<open>patchesApplied\<close>.
  \<open>patches[patchesApplied]\<close> is only read below the length; \<open>if (patch)\<close> fails for the
  empty string.
\<close>

definition replacer :: "jsstring list \<Rightarrow> jsstring \<Rightarrow> jsstring \<Rightarrow> nat \<Rightarrow> jsstring \<times> nat" where
  "replacer plan match indent applied =
     (if applied < length plan then
        (let patch = plan ! applied in
           if patch \<noteq> [] then (indentPatch indent patch, Suc applied)
           else (match, applied))
      else (match, applied))"

text \<open>Lines 70 to 91: the patched content and the final \<open>patchesApplied\<close>.\<close>

definition applyPatches :: "jsstring \<Rightarrow> jsstring list \<Rightarrow> jsstring \<times> nat" where
  "applyPatches originalContent plan = String_replace (replacer plan) originalContent 0"

text \<open>Lines 44 and 45: \<open>matches ? matches.length : 0\<close>.\<close>

definition markerCount :: "jsstring \<Rightarrow> nat" where
  "markerCount originalContent =
     (case String_match originalContent of None \<Rightarrow> 0 | Some ms \<Rightarrow> length ms)"

section \<open>The random source\<close>

text \<open>
  \<open>Math.random()\<close> and \<open>crypto.randomBytes\<close> are ambient in the source. Here the values
  they deliver are a part of the state: \<open>doubles\<close> are the successive results of
  \<open>Math.random()\<close> (a result is taken to be \<open>k / 2^53\<close> for a 53-bit \<open>k\<close>, so it lies in
  \<open>[0, 1)\<close>; the results of V8 are of this form), \<open>octets\<close> the successive random bytes, and
  two counters say how many were used.
\<close>

record rng =
  doubles :: "nat \<Rightarrow> 53 word"
  octets :: "nat \<Rightarrow> 8 word"
  doubles_used :: nat
  octets_used :: nat

text \<open>
  The product \<open>Math.random() * n\<close> is a double: the exact product \<open>p / 2^53\<close>, with
  \<open>p = k * n\<close>, rounded to 53 significant bits, to the nearest one and on a tie to the even
  significand. \<open>double_shift p\<close> is the number of low bits of \<open>p\<close> that the significand
  cannot hold, and \<open>round_double p\<close> the numerator of the rounded product over \<open>2^53\<close>.
  \<open>Math.floor\<close> of the product is the quotient of that numerator by \<open>2^53\<close>. The factor
  \<open>n\<close> is an array length or 1000, and is a double as it stands.
\<close>

function double_shift :: "nat \<Rightarrow> nat" where
  "double_shift p = (if p < 2 ^ 53 then 0 else Suc (double_shift (p div 2)))"
  by pat_completeness auto
termination
  by (relation "measure id") auto

declare double_shift.simps [simp del]

definition round_double :: "nat \<Rightarrow> nat" where
  "round_double p =
     (let s = double_shift p; q = p div 2 ^ s; r = p mod 2 ^ s
      in if s = 0 then p
         else if 2 ^ (s - 1) < r \<or> (r = 2 ^ (s - 1) \<and> odd q) then (q + 1) * 2 ^ s
         else q * 2 ^ s)"

text \<open>\<open>Math.floor(Math.random() * n)\<close>\<close>

definition Math_floor_random :: "nat \<Rightarrow> rng \<Rightarrow> nat \<times> rng" where
  "Math_floor_random n r =
     (round_double (unat (doubles r (doubles_used r)) * n) div 2 ^ 53,
      r\<lparr>doubles_used := Suc (doubles_used r)\<rparr>)"

definition randomBytes :: "nat \<Rightarrow> rng \<Rightarrow> 8 word list \<times> rng" where
  "randomBytes n r =
     (map (octets r) [octets_used r ..< octets_used r + n], r\<lparr>octets_used := octets_used r + n\<rparr>)"

text \<open>\<open>buf.toString('hex')\<close> and the decimal digits of a number in a template literal.\<close>

definition hex_digit :: "nat \<Rightarrow> jschar" where
  "hex_digit d = (if d < 10 then 0x30 + of_nat d else 0x61 + of_nat (d - 10))"

definition toHex :: "8 word list \<Rightarrow> jsstring" where
  "toHex bs = concat (map (\<lambda>b. [hex_digit (unat b div 16), hex_digit (unat b mod 16)]) bs)"

function decimal :: "nat \<Rightarrow> jsstring" where
  "decimal n = (if n < 10 then [0x30 + of_nat n] else decimal (n div 10) @ [0x30 + of_nat (n mod 10)])"
  by pat_completeness auto
termination
  by (relation "measure id") auto

declare decimal.simps [simp del]

section \<open>Decoys and shuffling\<close>

text \<open>
  Lines 178 to 184: the five templates, instantiated once in a call, in the order the
  array literal evaluates them.
\<close>

definition fakeTemplates :: "rng \<Rightarrow> jsstring list \<times> rng" where
  \<open>fakeTemplates r0 =
     (let (b1, r1) = randomBytes 4 r0;
          (b2, r2) = randomBytes 2 r1;
          (b3, r3) = randomBytes 8 r2;
          (n4, r4) = Math_floor_random 1000 r3;
          (b5, r5) = randomBytes 4 r4
      in ([js ''console.log("Fake patch '' @ toHex b1 @ js ''");'',
           js ''const fakeVar'' @ toHex b2 @ js '' = "'' @ toHex b3 @ js ''";'',
           js ''if (Math.random() > 0.5) { console.log("Fake condition"); }'',
           js ''setTimeout(() => {}, '' @ decimal n4 @ js '');'',
           js ''const fakeObj = { id: "'' @ toHex b5 @ js ''", value: Math.random() };''],
          r5))\<close>

text \<open>
  Lines 186 to 193: \<open>count\<close> draws. \<open>fakePatches[k]\<close> is \<open>undefined\<close> out of range, and
  \<open>if (randomPatch)\<close> fails for it as for the empty string.
\<close>

fun drawFakes :: "nat \<Rightarrow> jsstring list \<Rightarrow> jsstring list \<Rightarrow> rng \<Rightarrow> jsstring list \<times> rng" where
  "drawFakes 0 fakePatches result r = (result, r)"
| "drawFakes (Suc n) fakePatches result r =
     (let (k, r') = Math_floor_random (length fakePatches) r
      in if k < length fakePatches \<and> fakePatches ! k \<noteq> []
         then drawFakes n fakePatches (result @ [fakePatches ! k]) r'
         else drawFakes n fakePatches result r')"

definition generateFakePatches :: "nat \<Rightarrow> rng \<Rightarrow> jsstring list \<times> rng" where
  "generateFakePatches cnt r =
     (let (fakePatches, r') = fakeTemplates r in drawFakes cnt fakePatches [] r')"

text \<open>
  Lines 199 to 208: the loop runs \<open>i\<close> from \<open>length - 1\<close> down to \<open>1\<close>; \<open>shuffleFrom i\<close> is
  the loop from \<open>i\<close> on.
\<close>

fun shuffleFrom :: "nat \<Rightarrow> 'a list \<Rightarrow> rng \<Rightarrow> 'a list \<times> rng" where
  "shuffleFrom 0 shuffled r = (shuffled, r)"
| "shuffleFrom (Suc i) shuffled r =
     (let (j, r') = Math_floor_random (Suc i + 1) r;
          temp = shuffled ! Suc i
      in shuffleFrom i (shuffled[Suc i := shuffled ! j, j := temp]) r')"

definition shuffleArray :: "'a list \<Rightarrow> rng \<Rightarrow> 'a list \<times> rng" where
  "shuffleArray array r = shuffleFrom (length array - 1) array r"

text \<open>Lines 56 to 63: the real patches, then the decoys if requested.\<close>

definition combinedPatches :: "PatchConfig \<Rightarrow> nat \<Rightarrow> rng \<Rightarrow> jsstring list \<times> rng" where
  "combinedPatches config cnt r =
     (if truthy (addFakePatches config) then
        (let (fakePatches, r') = generateFakePatches cnt r in (patches config @ fakePatches, r'))
      else (patches config, r))"

text \<open>Lines 56 to 68: the list the callback reads.\<close>

definition preparePatches :: "PatchConfig \<Rightarrow> nat \<Rightarrow> rng \<Rightarrow> jsstring list \<times> rng" where
  "preparePatches config cnt r =
     (let (plan, r') = combinedPatches config cnt r
      in if truthy (randomizeOrder config) then shuffleArray plan r' else (plan, r'))"

section \<open>The platform and the pipeline\<close>

text \<open>
  A value that a script throws, or with which a promise rejects, seen through the one thing
  the source does with it: the template literal \<open>${(error as Error).message}\<close>. Reading the
  message yields a string (the message of an \<open>Error\<close>; \<open>undefined\<close> for a value without
  the property), or it throws in turn (a \<open>TypeError\<close> for \<open>null\<close> and \<open>undefined\<close>, whatever
  a getter throws), or it does not return (a getter that loops or ends the process).
\<close>

datatype thrown = Message jsstring | NoMessage thrown | Endless

text \<open>
  What a promise does: it fulfils with a value, it rejects with a reason, or it never
  settles.
\<close>

datatype 'a promise = Fulfilled 'a | Rejected thrown | Pending

text \<open>
  What \<open>new vm.Script(text)\<close> followed by
  \<open>script.runInNewContext(sandbox, {timeout, displayErrors: true})\<close> does. It throws (a
  syntax error, what the script throws, the error of the timeout); or it returns a value,
  and \<open>Returned p\<close> says what the promise of an \<open>async\<close> function does that returns this
  value: it fulfils with the value if the value is no thenable, and does what the thenable
  does otherwise; or it does not return, as when the script calls the \<open>process.exit\<close> that
  line 128 hands to it.
\<close>

datatype 'v run = Threw thrown | Returned "'v promise" | Stopped

text \<open>
  What the source takes from Node is a parameter here. \<open>readFile\<close> is
  \<open>fs.promises.readFile(filePath, 'utf-8')\<close>: the content, or the \<open>Error\<close> it rejects
  with. \<open>runScript\<close> is the compilation and the run of a text in a sandbox under a timeout.
  Both depend on a state of the host, of type \<open>'h\<close>, and a run may change it.
  \<open>hostGlobal\<close> gives the host's object of a name, \<open>processInfo\<close> is the object
  \<open>{env, cwd, exit}\<close> built in lines 125 to 129.
\<close>

record ('h, 'c, 'v) platform =
  readFile :: "'h \<Rightarrow> jsstring \<Rightarrow> js_error + jsstring"
  runScript :: "jsstring \<Rightarrow> (jsstring \<rightharpoonup> 'c) \<Rightarrow> nat \<Rightarrow> 'h \<Rightarrow> 'v run \<times> 'h"
  hostGlobal :: "jsstring \<Rightarrow> 'c"
  processInfo :: 'c

record 'h world =
  entropy :: rng
  host :: 'h

text \<open>
  Lines 36 to 107. The \<open>catch\<close> of line 99 takes the error of \<open>readFile\<close>; the function
  returns an outcome on every path.
\<close>

definition loadAndPatch ::
  "('h, 'c, 'v) platform \<Rightarrow> jsstring \<Rightarrow> PatchConfig \<Rightarrow> 'h world \<Rightarrow> 'v PatchResult \<times> 'h world" where
  "loadAndPatch P filePath config w =
     (case readFile P (host w) filePath of
        Inl e \<Rightarrow>
          (\<lparr>originalFile = [], patchedFile = [], patchesApplied = 0, executionResult = None,
            errors = Some [js ''Failed to load file: '' @ message e]\<rparr>, w)
      | Inr originalContent \<Rightarrow>
          if markerCount originalContent = 0 then
            (\<lparr>originalFile = originalContent, patchedFile = originalContent, patchesApplied = 0,
              executionResult = None, errors = Some [js ''No Car(); markers found in file'']\<rparr>, w)
          else
            (let (plan, r') = preparePatches config (markerCount originalContent) (entropy w);
                 (patchedContent, applied) = applyPatches originalContent plan
             in (\<lparr>originalFile = originalContent, patchedFile = patchedContent,
                  patchesApplied = applied, executionResult = None, errors = Some []\<rparr>,
                 w\<lparr>entropy := r'\<rparr>)))"

text \<open>Lines 118 to 131: the default capabilities, then the caller's, which win.\<close>

definition defaultSandbox :: "('h, 'c, 'v) platform \<Rightarrow> (jsstring \<rightharpoonup> 'c)" where
  "defaultSandbox P =
     map_of [(js ''console'', hostGlobal P (js ''console'')),
             (js ''setTimeout'', hostGlobal P (js ''setTimeout'')),
             (js ''setInterval'', hostGlobal P (js ''setInterval'')),
             (js ''clearTimeout'', hostGlobal P (js ''clearTimeout'')),
             (js ''clearInterval'', hostGlobal P (js ''clearInterval'')),
             (js ''Buffer'', hostGlobal P (js ''Buffer'')),
             (js ''process'', processInfo P)]"

text \<open>
  Lines 112 to 144: what the promise of \<open>executePatched\<close> does. The timeout is the constant
  of line 136. \<open>return result\<close> resolves the promise with the value of the script and
  does not await it: a promise that the script returns is adopted, and its rejection does
  not reach the \<open>catch\<close>.
  The \<open>catch\<close> of line 141 reads the message of what was thrown: with a message it throws
  the new \<open>Error\<close> of line 142, and when the reading throws, that is what leaves the function.
\<close>

definition executePatched ::
  "('h, 'c, 'v) platform \<Rightarrow> jsstring \<Rightarrow> (jsstring \<rightharpoonup> 'c) \<Rightarrow> 'h \<Rightarrow> 'v promise \<times> 'h" where
  "executePatched P patchedContent ctx h =
     (case runScript P patchedContent (defaultSandbox P ++ ctx) 5000 h of
        (Returned p, h') \<Rightarrow> (p, h')
      | (Stopped, h') \<Rightarrow> (Pending, h')
      | (Threw x, h') \<Rightarrow>
          (case x of
             Message m \<Rightarrow> (Rejected (Message (js ''Execution failed: '' @ m)), h')
           | NoMessage y \<Rightarrow> (Rejected y, h')
           | Endless \<Rightarrow> (Pending, h')))"

text \<open>
  Lines 149 to 172: what the promise of \<open>runWithPatches\<close> does. The \<open>catch\<close> of line 166
  takes the rejection of \<open>executePatched\<close> and reads its message.
\<close>

definition hasErrors :: "'v PatchResult \<Rightarrow> bool" where
  "hasErrors patchResult = (case errors patchResult of None \<Rightarrow> False | Some es \<Rightarrow> es \<noteq> [])"

definition runWithPatches ::
  "('h, 'c, 'v) platform \<Rightarrow> jsstring \<Rightarrow> PatchConfig \<Rightarrow> (jsstring \<rightharpoonup> 'c) \<Rightarrow> 'h world
     \<Rightarrow> 'v PatchResult promise \<times> 'h world" where
  "runWithPatches P filePath config ctx w =
     (let (patchResult, w1) = loadAndPatch P filePath config w
      in if hasErrors patchResult then (Fulfilled patchResult, w1)
         else
           (case executePatched P (patchedFile patchResult) ctx (host w1) of
              (Fulfilled result, h') \<Rightarrow>
                (Fulfilled (patchResult\<lparr>executionResult := Some result\<rparr>), w1\<lparr>host := h'\<rparr>)
            | (Pending, h') \<Rightarrow> (Pending, w1\<lparr>host := h'\<rparr>)
            | (Rejected x, h') \<Rightarrow>
                (case x of
                   Message m \<Rightarrow>
                     (Fulfilled (patchResult\<lparr>errors :=
                        Some ((case errors patchResult of None \<Rightarrow> [] | Some es \<Rightarrow> es)
                              @ [js ''Execution error: '' @ m])\<rparr>),
                      w1\<lparr>host := h'\<rparr>)
                 | NoMessage y \<Rightarrow> (Rejected y, w1\<lparr>host := h'\<rparr>)
                 | Endless \<Rightarrow> (Pending, w1\<lparr>host := h'\<rparr>))))"

text \<open>
  Lines 244 to 256, the body of the loop of \<open>batchProcess\<close> up to \<open>results.set\<close>: the
  outcome that the entry of \<open>filePath\<close> gets, if it gets one. The \<open>catch\<close> of line 248 takes
  a rejection of \<open>runWithPatches\<close> and reads its message: with a message the entry is the
  outcome of lines 249 to 254, and when the reading throws, that is what leaves the loop.
\<close>

definition batchEntry ::
  "('h, 'c, 'v) platform \<Rightarrow> jsstring \<Rightarrow> PatchConfig \<Rightarrow> (jsstring \<rightharpoonup> 'c) \<Rightarrow> 'h world
     \<Rightarrow> 'v PatchResult promise \<times> 'h world" where
  "batchEntry P filePath config ctx w =
     (case runWithPatches P filePath config ctx w of
        (Fulfilled result, w') \<Rightarrow> (Fulfilled result, w')
      | (Pending, w') \<Rightarrow> (Pending, w')
      | (Rejected x, w') \<Rightarrow>
          (case x of
             Message m \<Rightarrow>
               (Fulfilled \<lparr>originalFile = [], patchedFile = [], patchesApplied = 0,
                           executionResult = None,
                           errors = Some [js ''Batch processing error: '' @ m]\<rparr>, w')
           | NoMessage y \<Rightarrow> (Rejected y, w')
           | Endless \<Rightarrow> (Pending, w')))"



section \<open>The specification's reading of a substitution\<close>

text \<open>
  The text of a segment in the input, and whether it is a marker.
\<close>

fun segment_text :: "segment \<Rightarrow> jsstring" where
  "segment_text (Unmatched c) = [c]"
| "segment_text (Matched ind m) = m"

fun is_marker :: "segment \<Rightarrow> bool" where
  "is_marker (Unmatched c) = False"
| "is_marker (Matched ind m) = True"

text \<open>
  The specification's words for the applicator: walking the markers in ascending order,
  the i-th marker receives the i-th element of the plan if one exists (each line indented
  as \<open>indentPatch\<close> does), else it is left verbatim; the text between markers is kept.
\<close>

fun spec_fill :: "jsstring list \<Rightarrow> segment list \<Rightarrow> jsstring" where
  "spec_fill plan [] = []"
| "spec_fill plan (Unmatched c # gs) = c # spec_fill plan gs"
| "spec_fill [] (Matched ind m # gs) = m @ spec_fill [] gs"
| "spec_fill (p # plan) (Matched ind m # gs) = indentPatch ind p @ spec_fill plan gs"

text \<open>
  The lines of a document, for "a line whose trimmed content is the marker": the text is
  split at every line terminator, which are the places where \<open>^\<close> and \<open>$\<close> of the pattern
  hold. (\<open>scanMarkers\<close> splits at \<open>\n\<close> only.)
\<close>

fun split_lines :: "jsstring \<Rightarrow> jsstring list" where
  "split_lines [] = [[]]"
| "split_lines (c # cs) =
     (if is_line_terminator c then [] # split_lines cs
      else (case split_lines cs of
              [] \<Rightarrow> [[c]]
            | l # ls \<Rightarrow> (c # l) # ls))"

section \<open>Inputs for the examples\<close>

text \<open>The third template of \<open>generateFakePatches\<close>, which holds no random token.\<close>

definition conditionalTemplate :: jsstring where
  \<open>conditionalTemplate = js ''if (Math.random() > 0.5) { console.log("Fake condition"); }''\<close>

text \<open>
  Two random sources. The first delivers results of \<open>Math.random()\<close> just above one half,
  the second results just above zero; both deliver the bytes 0, 1, 2 and so on.
\<close>

definition middling_rng :: rng where
  "middling_rng = \<lparr>doubles = (\<lambda>i. 2 ^ 52 + of_nat i), octets = (\<lambda>i. of_nat i), doubles_used = 0, octets_used = 0\<rparr>"

definition low_rng :: rng where
  "low_rng = \<lparr>doubles = (\<lambda>i. of_nat i), octets = (\<lambda>i. of_nat i), doubles_used = 0, octets_used = 0\<rparr>"

text \<open>
  A platform with five files. Its virtual machine knows seven texts by what they do in
  Node, in the sandbox of \<open>executePatched\<close> without capabilities of the caller. The endless
  loop runs into the timeout. The second text waits for 100 ms and has the value 1; a
  timeout below 100 ms stops it. \<open>throw null\<close> throws a value whose message cannot be
  read: reading it throws a \<open>TypeError\<close>. \<open>new Promise(() => {})\<close> returns a promise that
  never settles, \<open>Promise.reject(new Error("7"))\<close> one that rejects, and \<open>process.exit()\<close>
  ends the process. The last text counts the runs in the environment of the host, which
  the object \<open>process.env\<close> of line 126 is: the state of the host is the number in
  \<open>process.env.RUNS\<close>, 0 when it is not set, and the value of the assignment is the number
  assigned. Every other text the machine refuses. \<open>enoent\<close> is the message with which
  \<open>readFile\<close> rejects for a path without a file.
\<close>

definition enoent :: "jsstring \<Rightarrow> jsstring" where
  "enoent path = js ''ENOENT: no such file or directory, open '' @ [0x27] @ path @ [0x27]"

definition busy_script :: jsstring where
  \<open>busy_script = js ''for (var t = Date.now(); Date.now() - t < 100;); 1''\<close>

definition counting_script :: jsstring where
  \<open>counting_script = js ''process.env.RUNS = Number(process.env.RUNS || 0) + 1''\<close>

definition timed_out :: "nat \<Rightarrow> thrown" where
  "timed_out timeout = Message (js ''Script execution timed out after '' @ decimal timeout @ js ''ms'')"

definition demo_platform :: "(nat, jsstring, nat) platform" where
  \<open>demo_platform =
     \<lparr>readFile = (\<lambda>h path.
          if path = js ''/a.js'' then Inr (js ''Car();'')
          else if path = js ''/scenarioA.js'' then Inr (js ''a\<newline>Car();\<newline>b\<newline>Car();\<newline>c'')
          else if path = js ''/b.js'' then Inr (js ''f();\<newline>  Car();'')
          else if path = js ''/c.js'' then Inr (js ''f(); // Car();'')
          else if path = js ''/d.js'' then Inr (js ''Car();'')
          else Inl (Error (enoent path))),
      runScript = (\<lambda>script sandbox timeout h.
          if script = js ''while(true){}'' then (Threw (timed_out timeout), h)
          else if script = busy_script
          then (if timeout < 100 then Threw (timed_out timeout) else Returned (Fulfilled 1), h)
          else if script = js ''throw null''
          then (Threw (NoMessage (Message (js ''Cannot read properties of null (reading 'message')''))), h)
          else if script = js ''new Promise(() => {})'' then (Returned Pending, h)
          else if script = js ''Promise.reject(new Error("7"))''
          then (Returned (Rejected (Message (js ''7''))), h)
          else if script = js ''process.exit()'' then (Stopped, h)
          else if script = counting_script then (Returned (Fulfilled (Suc h)), Suc h)
          else (Threw (Message (js ''Unexpected identifier'')), h)),
      hostGlobal = (\<lambda>name. name),
      processInfo = js ''process''\<rparr>\<close>

definition demo_world :: "nat world" where
  "demo_world = \<lparr>entropy = low_rng, host = 0\<rparr>"

definition plain_config :: "jsstring list \<Rightarrow> PatchConfig" where
  "plain_config ps = \<lparr>patches = ps, randomizeOrder = None, addFakePatches = None, preserveOriginal = None\<rparr>"

definition decoy_config :: PatchConfig where
  "decoy_config = \<lparr>patches = [], randomizeOrder = None, addFakePatches = Some True, preserveOriginal = None\<rparr>"

definition shuffle_config :: PatchConfig where
  "shuffle_config = \<lparr>patches = [js ''A();'', js ''B();''], randomizeOrder = Some True,
                       addFakePatches = None, preserveOriginal = None\<rparr>"

section \<open>Properties of the marker pattern and of the applicator\<close>

lemma match_trailing_shape:
  "match_trailing s = Some (w, r) \<Longrightarrow> s = w @ r \<and> (\<forall>c\<in>set w. is_space c) \<and> at_line_end r"
  by (induction s arbitrary: w r) (auto split: if_splits option.splits)

lemma match_token_shape:
  assumes "match_token s = Some (m, r)"
  shows "\<exists>w. m = CAR_MARKER @ w \<and> s = m @ r \<and> (\<forall>c\<in>set w. is_space c) \<and> at_line_end r"
proof -
  from assms have t: "take (length CAR_MARKER) s = CAR_MARKER"
    by (auto simp: match_token_def split: if_splits)
  with assms obtain w where w: "match_trailing (drop (length CAR_MARKER) s) = Some (w, r)"
    and m: "m = CAR_MARKER @ w"
    by (auto simp: match_token_def split: option.splits)
  have "s = take (length CAR_MARKER) s @ drop (length CAR_MARKER) s" by simp
  with t match_trailing_shape [OF w] m have "s = m @ r" by simp
  with match_trailing_shape [OF w] m show ?thesis by blast
qed

lemma match_car_shape:
  "match_car s = Some (ind, m, r) \<Longrightarrow>
     \<exists>w. m = ind @ CAR_MARKER @ w \<and> s = m @ r \<and> (\<forall>c\<in>set ind. is_space c) \<and>
         (\<forall>c\<in>set w. is_space c) \<and> at_line_end r"
proof (induction s arbitrary: ind m r)
  case Nil
  then show ?case by (auto split: option.splits dest: match_token_shape)
next
  case (Cons c cs)
  show ?case
  proof (cases "is_space c \<and> match_car cs \<noteq> None")
    case True
    then obtain i' m' r' where s: "match_car cs = Some (i', m', r')" by auto
    with True Cons.prems have e: "ind = c # i'" "m = c # m'" "r = r'" by auto
    from Cons.IH [OF s] True e show ?thesis by auto
  next
    case False
    with Cons.prems have "match_token (c # cs) = Some (m, r) \<and> ind = []"
      by (auto split: option.splits if_splits)
    then show ?thesis using match_token_shape [of "c # cs" m r] by auto
  qed
qed

lemma exec_all_concat: "concat (map segment_text (exec_all bol s)) = s"
proof (induction bol s rule: exec_all.induct)
  case (1 bol s)
  show ?case
  proof (cases "if bol then match_car s else None")
    case None
    then show ?thesis using 1(1) by (subst exec_all.simps) (auto split: list.splits)
  next
    case (Some a)
    then obtain ind m r where a: "a = (ind, m, r)" by (cases a) auto
    with Some have mc: "match_car s = Some (ind, m, r)" by (auto split: if_splits)
    from match_car_shape [OF mc] have "s = m @ r" by auto
    moreover have "concat (map segment_text (exec_all (is_line_terminator (last m)) r)) = r"
      using 1(2) Some a by simp
    ultimately show ?thesis using Some a by (subst exec_all.simps) simp
  qed
qed

lemma exec_all_marker_shape:
  "Matched ind m \<in> set (exec_all bol s) \<Longrightarrow>
     \<exists>w. m = ind @ CAR_MARKER @ w \<and> (\<forall>c\<in>set ind. is_space c) \<and> (\<forall>c\<in>set w. is_space c)"
proof (induction bol s rule: exec_all.induct)
  case (1 bol s)
  show ?case
  proof (cases "if bol then match_car s else None")
    case None
    with 1(3) have "s \<noteq> []" by (subst (asm) exec_all.simps) auto
    then obtain c cs where s: "s = c # cs" by (cases s) auto
    with None 1(3) have "Matched ind m \<in> set (exec_all (is_line_terminator c) cs)"
      by (subst (asm) exec_all.simps) auto
    with 1(1) None s show ?thesis by blast
  next
    case (Some a)
    then obtain i' m' r where a: "a = (i', m', r)" by (cases a) auto
    with Some have mc: "match_car s = Some (i', m', r)" by (auto split: if_splits)
    from 1(3) Some a have "Matched ind m = Matched i' m' \<or> Matched ind m \<in> set (exec_all (is_line_terminator (last m')) r)"
      by (subst (asm) exec_all.simps) auto
    then show ?thesis
    proof
      assume "Matched ind m = Matched i' m'"
      with match_car_shape [OF mc] show ?thesis by auto
    next
      assume "Matched ind m \<in> set (exec_all (is_line_terminator (last m')) r)"
      with 1(2) Some a show ?thesis by blast
    qed
  qed
qed

lemma markerCount_segments: "markerCount s = length (filter is_marker (exec_all True s))"
proof -
  define ms where "ms = concat (map (\<lambda>g. case g of Unmatched c \<Rightarrow> [] | Matched ind m \<Rightarrow> [m]) (exec_all True s))"
  have "length (concat (map (\<lambda>g. case g of Unmatched c \<Rightarrow> [] | Matched ind m \<Rightarrow> [m]) gs)) = length (filter is_marker gs)" for gs
  proof (induction gs)
    case Nil then show ?case by simp
  next
    case (Cons g gs) then show ?case by (cases g) auto
  qed
  then have len: "length ms = length (filter is_marker (exec_all True s))"
    by (simp add: ms_def)
  have "markerCount s = (if ms = [] then 0 else length ms)"
    by (simp add: markerCount_def String_match_def ms_def)
  also have "\<dots> = length ms" by simp
  finally show ?thesis using len by simp
qed

lemma replace_segments_replacer:
  "replace_segments (replacer plan) gs k =
     (spec_fill (takeWhile (\<lambda>p. p \<noteq> []) (drop k plan)) gs,
      k + min (length (takeWhile (\<lambda>p. p \<noteq> []) (drop k plan))) (length (filter is_marker gs)))"
proof (induction gs arbitrary: k)
  case Nil
  then show ?case by simp
next
  case (Cons g gs)
  show ?case
  proof (cases g)
    case (Unmatched c)
    then show ?thesis using Cons.IH [of k] by simp
  next
    case (Matched ind m)
    show ?thesis
    proof (cases "k < length plan \<and> plan ! k \<noteq> []")
      case True
      then have d: "drop k plan = plan ! k # drop (Suc k) plan"
        by (simp add: Cons_nth_drop_Suc)
      have r: "replacer plan m ind k = (indentPatch ind (plan ! k), Suc k)"
        using True by (simp add: replacer_def Let_def)
      show ?thesis using Matched True Cons.IH [of "Suc k"] by (simp add: r d)
    next
      case False
      then have d: "takeWhile (\<lambda>p. p \<noteq> []) (drop k plan) = []"
        by (cases "k < length plan") (auto simp: Cons_nth_drop_Suc [symmetric])
      have r: "replacer plan m ind k = (m, k)"
        using False by (auto simp: replacer_def Let_def)
      show ?thesis using Matched Cons.IH [of k] by (simp add: r d)
    qed
  qed
qed

lemma applyPatches_general:
  "applyPatches doc plan =
     (spec_fill (takeWhile (\<lambda>p. p \<noteq> []) plan) (exec_all True doc),
      min (length (takeWhile (\<lambda>p. p \<noteq> []) plan)) (markerCount doc))"
  by (simp add: applyPatches_def String_replace_def replace_segments_replacer markerCount_segments)

lemma takeWhile_nonempty_prefix:
  "[] \<notin> set pre \<Longrightarrow> takeWhile (\<lambda>p. p \<noteq> []) (pre @ [] # post) = pre"
  by (induction pre) auto

lemma takeWhile_nonempty_all:
  "[] \<notin> set plan \<Longrightarrow> takeWhile (\<lambda>p. p \<noteq> []) plan = plan"
  by (induction plan) auto

lemma dropWhile_all_iff: "(\<forall>x\<in>set (dropWhile P xs). P x) \<longleftrightarrow> dropWhile P xs = []"
proof
  assume a: "\<forall>x\<in>set (dropWhile P xs). P x"
  show "dropWhile P xs = []"
  proof (rule ccontr)
    assume n: "dropWhile P xs \<noteq> []"
    then have "\<not> P (hd (dropWhile P xs))" by (rule hd_dropWhile)
    moreover from n have "hd (dropWhile P xs) \<in> set (dropWhile P xs)" by simp
    ultimately show False using a by blast
  qed
next
  assume "dropWhile P xs = []"
  then show "\<forall>x\<in>set (dropWhile P xs). P x" by (simp del: dropWhile_eq_Nil_conv)
qed

lemma trim_nonempty_iff: "trim l \<noteq> [] \<longleftrightarrow> (\<exists>c\<in>set l. \<not> is_space c)"
proof -
  have "trim l = [] \<longleftrightarrow> (\<forall>x\<in>set (dropWhile is_space l). is_space x)"
    by (simp add: trim_def)
  also have "\<dots> \<longleftrightarrow> dropWhile is_space l = []" by (rule dropWhile_all_iff)
  also have "\<dots> \<longleftrightarrow> (\<forall>x\<in>set l. is_space x)" by simp
  finally show ?thesis by blast
qed

lemma split_newline_nonempty: "split_newline s \<noteq> []"
  by (induction s) (auto split: list.splits)

lemma split_newline_no_newline: "l \<in> set (split_newline s) \<Longrightarrow> 0x0A \<notin> set l"
  by (induction s arbitrary: l) (auto split: if_splits list.splits)

lemma split_join_newline:
  "ls \<noteq> [] \<Longrightarrow> \<forall>l\<in>set ls. 0x0A \<notin> set l \<Longrightarrow> split_newline (join_newline ls) = ls"
proof (induction ls rule: join_newline.induct)
  case 1 then show ?case by simp
next
  case (2 l)
  then have "0x0A \<notin> set l" by simp
  then have "split_newline l = [l]" by (induction l) auto
  then show ?case by simp
next
  case (3 l v va)
  then have n: "0x0A \<notin> set l" and r: "split_newline (join_newline (v # va)) = v # va" by auto
  have "split_newline (l @ 0x0A # s) = l # split_newline s" for s
    using n by (induction l) auto
  with r show ?case by simp
qed

lemma takeWhile_space_append:
  "\<forall>c\<in>set ind. is_space c \<Longrightarrow> takeWhile is_space (ind @ line) = ind @ takeWhile is_space line"
  by (induction ind) auto

section \<open>Markers and lines\<close>

lemma split_lines_nonempty: "split_lines s \<noteq> []"
  by (induction s) (auto split: list.splits)

lemma split_lines_head:
  "\<forall>c\<in>set l. \<not> is_line_terminator c \<Longrightarrow> at_line_end b \<Longrightarrow> hd (split_lines (l @ b)) = l"
proof (induction l)
  case Nil
  then show ?case by (cases b) auto
next
  case (Cons c l)
  then have "hd (split_lines (l @ b)) = l" by simp
  moreover have "split_lines (l @ b) \<noteq> []" by (rule split_lines_nonempty)
  ultimately show ?case using Cons.prems by (cases "split_lines (l @ b)") auto
qed

lemma split_lines_tail:
  "is_line_terminator t \<Longrightarrow> set (split_lines rest) \<subseteq> set (tl (split_lines (x @ t # rest)))"
proof (induction x)
  case Nil
  then show ?case by simp
next
  case (Cons c x)
  show ?case
  proof (cases "is_line_terminator c")
    case True
    have "set (tl (split_lines (x @ t # rest))) \<subseteq> set (split_lines (x @ t # rest))"
      by (cases "split_lines (x @ t # rest)") auto
    with Cons True show ?thesis by auto
  next
    case False
    with Cons show ?thesis by (cases "split_lines (x @ t # rest)") auto
  qed
qed

lemma split_lines_member:
  assumes "a = [] \<or> is_line_terminator (last a)" "at_line_end b" "\<forall>c\<in>set l. \<not> is_line_terminator c"
  shows "l \<in> set (split_lines (a @ l @ b))"
proof -
  have h: "l \<in> set (split_lines (l @ b))"
    using split_lines_head [OF assms(3,2)] split_lines_nonempty [of "l @ b"]
    by (metis list.set_sel(1))
  show ?thesis
  proof (cases "a = []")
    case True
    with h show ?thesis by simp
  next
    case False
    with assms(1) have t: "is_line_terminator (last a)" by simp
    from False obtain a' c where a: "a = a' @ [c]" by (metis rev_exhaust)
    with t have c: "is_line_terminator c" by simp
    from split_lines_tail [OF c, of "l @ b" a'] h
    have "l \<in> set (tl (split_lines (a' @ c # l @ b)))" by blast
    then have "l \<in> set (split_lines (a' @ c # l @ b))"
      by (cases "split_lines (a' @ c # l @ b)") auto
    then show ?thesis by (simp add: a)
  qed
qed

lemma trim_spaces:
  assumes "\<forall>c\<in>set a. is_space c" "\<forall>c\<in>set b. is_space c" "x \<noteq> []" "\<not> is_space (hd x)" "\<not> is_space (last x)"
  shows "trim (a @ x @ b) = x"
proof -
  have d: "dropWhile is_space (a @ x @ b) = x @ b"
    using assms(1,3,4) by (cases x) (auto simp: dropWhile_append)
  have "rev (x @ b) = rev b @ rev x" by simp
  moreover have "dropWhile is_space (rev b @ rev x) = rev x"
    using assms(2,3,5) by (cases "rev x") (auto simp: dropWhile_append last_rev [symmetric] hd_rev)
  ultimately show ?thesis by (simp add: trim_def d)
qed

lemma CAR_MARKER_trim:
  assumes "\<forall>c\<in>set a. is_space c" "\<forall>c\<in>set b. is_space c"
  shows "trim (a @ CAR_MARKER @ b) = CAR_MARKER"
  by (rule trim_spaces [OF assms])
     (simp_all add: CAR_MARKER_def js_def is_space_def is_white_space_def is_line_terminator_def)

lemma CAR_MARKER_no_terminator: "\<forall>c\<in>set CAR_MARKER. \<not> is_line_terminator c"
  by (simp add: CAR_MARKER_def js_def is_line_terminator_def)

lemma exec_all_match_context:
  "Matched ind m \<in> set (exec_all bol s) \<Longrightarrow>
     \<exists>pre w rest. s = pre @ ind @ CAR_MARKER @ w @ rest \<and>
        (\<forall>c\<in>set ind. is_space c) \<and> (\<forall>c\<in>set w. is_space c) \<and> at_line_end rest \<and>
        (pre = [] \<and> bol \<or> pre \<noteq> [] \<and> is_line_terminator (last pre))"
proof (induction bol s rule: exec_all.induct)
  case (1 bol s)
  show ?case
  proof (cases "if bol then match_car s else None")
    case None
    with 1(3) have "s \<noteq> []" by (subst (asm) exec_all.simps) auto
    then obtain c cs where s: "s = c # cs" by (cases s) auto
    with None 1(3) have "Matched ind m \<in> set (exec_all (is_line_terminator c) cs)"
      by (subst (asm) exec_all.simps) auto
    from 1(1) [OF None s this] obtain pre w rest where
      p: "cs = pre @ ind @ CAR_MARKER @ w @ rest" "\<forall>c\<in>set ind. is_space c" "\<forall>c\<in>set w. is_space c"
         "at_line_end rest" "pre = [] \<and> is_line_terminator c \<or> pre \<noteq> [] \<and> is_line_terminator (last pre)"
      by auto
    have "s = (c # pre) @ ind @ CAR_MARKER @ w @ rest" using s p(1) by simp
    moreover have "is_line_terminator (last (c # pre))"
      using p(5) by auto
    ultimately show ?thesis using p(2,3,4)
      by (intro exI [of _ "c # pre"] exI [of _ w] exI [of _ rest]) simp
  next
    case (Some a)
    then obtain i' m' r where a: "a = (i', m', r)" by (cases a) auto
    with Some have mc: "match_car s = Some (i', m', r)" and bol: bol by (auto split: if_splits)
    from match_car_shape [OF mc] obtain w' where
      sh: "m' = i' @ CAR_MARKER @ w'" "s = m' @ r" "\<forall>c\<in>set i'. is_space c" "\<forall>c\<in>set w'. is_space c" "at_line_end r"
      by auto
    from 1(3) Some a have "Matched ind m = Matched i' m' \<or> Matched ind m \<in> set (exec_all (is_line_terminator (last m')) r)"
      by (subst (asm) exec_all.simps) auto
    then show ?thesis
    proof
      assume e: "Matched ind m = Matched i' m'"
      then have "s = [] @ ind @ CAR_MARKER @ w' @ r" using sh by simp
      moreover have "\<forall>c\<in>set ind. is_space c" using sh e by simp
      ultimately show ?thesis using sh(4,5) bol
        by (intro exI [of _ "[]"] exI [of _ w'] exI [of _ r]) simp
    next
      assume "Matched ind m \<in> set (exec_all (is_line_terminator (last m')) r)"
      from 1(2) [OF Some a [symmetric] refl this] obtain pre w rest where
        p: "r = pre @ ind @ CAR_MARKER @ w @ rest" "\<forall>c\<in>set ind. is_space c" "\<forall>c\<in>set w. is_space c"
           "at_line_end rest" "pre = [] \<and> is_line_terminator (last m') \<or> pre \<noteq> [] \<and> is_line_terminator (last pre)"
        by auto
      have ne: "m' \<noteq> []" using sh(1) by (simp add: CAR_MARKER_def js_def)
      have "s = (m' @ pre) @ ind @ CAR_MARKER @ w @ rest" using sh(2) p(1) by simp
      moreover have "m' @ pre \<noteq> [] \<and> is_line_terminator (last (m' @ pre))"
        using p(5) ne by auto
      ultimately show ?thesis using p(2,3,4)
        by (intro exI [of _ "m' @ pre"] exI [of _ w] exI [of _ rest]) simp
    qed
  qed
qed

lemma marker_has_line:
  assumes "Matched ind m \<in> set (exec_all True doc)"
  shows "\<exists>line\<in>set (split_lines doc). trim line = CAR_MARKER"
proof -
  from exec_all_match_context [OF assms] obtain pre w rest where
    p: "doc = pre @ ind @ CAR_MARKER @ w @ rest" "\<forall>c\<in>set ind. is_space c" "\<forall>c\<in>set w. is_space c"
       "at_line_end rest" "pre = [] \<or> is_line_terminator (last pre)"
    by auto
  let ?nt = "\<lambda>c. \<not> is_line_terminator c"
  define i2 where "i2 = rev (takeWhile ?nt (rev ind))"
  define i1 where "i1 = rev (dropWhile ?nt (rev ind))"
  define w1 where "w1 = takeWhile ?nt w"
  define w2 where "w2 = dropWhile ?nt w"
  have ind: "ind = i1 @ i2"
    unfolding i1_def i2_def by (metis rev_append rev_rev_ident takeWhile_dropWhile_id)
  have w: "w = w1 @ w2" unfolding w1_def w2_def by simp
  have i1: "i1 = [] \<or> is_line_terminator (last i1)"
  proof (cases "dropWhile ?nt (rev ind)")
    case Nil then show ?thesis by (simp add: i1_def)
  next
    case (Cons c cs)
    then have "is_line_terminator c" by (metis hd_dropWhile list.sel(1) list.distinct(1))
    with Cons show ?thesis by (simp add: i1_def)
  qed
  have w2: "at_line_end (w2 @ rest)"
  proof (cases w2)
    case Nil with p(4) show ?thesis by simp
  next
    case (Cons c cs)
    then have "is_line_terminator c" unfolding w2_def by (metis hd_dropWhile list.sel(1) list.distinct(1))
    with Cons show ?thesis by simp
  qed
  have i2: "\<forall>c\<in>set i2. ?nt c" unfolding i2_def by (auto dest: set_takeWhileD)
  have w1: "\<forall>c\<in>set w1. ?nt c" unfolding w1_def by (auto dest: set_takeWhileD)
  let ?l = "i2 @ CAR_MARKER @ w1"
  have a: "pre @ i1 = [] \<or> is_line_terminator (last (pre @ i1))"
    using i1 p(5) by (cases "i1 = []") auto
  have nl: "\<forall>c\<in>set ?l. ?nt c" using i2 w1 CAR_MARKER_no_terminator by auto
  have "doc = (pre @ i1) @ ?l @ (w2 @ rest)" using p(1) ind w by simp
  with split_lines_member [OF a w2 nl] have "?l \<in> set (split_lines doc)" by simp
  moreover have "trim ?l = CAR_MARKER"
    using p(2,3) ind w by (intro CAR_MARKER_trim) auto
  ultimately show ?thesis by blast
qed

lemma no_marker_line_no_match:
  assumes "\<forall>line\<in>set (split_lines doc). trim line \<noteq> CAR_MARKER"
  shows "markerCount doc = 0"
proof -
  have "filter is_marker (exec_all True doc) = []"
  proof (rule ccontr)
    assume "filter is_marker (exec_all True doc) \<noteq> []"
    then obtain g where g: "g \<in> set (exec_all True doc)" "is_marker g"
      by (auto simp: filter_empty_conv)
    from g(2) obtain ind m where "g = Matched ind m" by (cases g) auto
    with g marker_has_line assms show False by blast
  qed
  then show ?thesis by (simp add: markerCount_segments)
qed

lemma line_terminator_is_space: "is_line_terminator c \<Longrightarrow> is_space c"
  by (simp add: is_space_def)

lemma split_lines_hd: "hd (split_lines s) = takeWhile (\<lambda>c. \<not> is_line_terminator c) s"
proof (induction s)
  case Nil
  then show ?case by simp
next
  case (Cons c s)
  then show ?case using split_lines_nonempty [of s] by (cases "split_lines s") auto
qed

lemma at_line_end_dropWhile: "at_line_end (dropWhile (\<lambda>c. \<not> is_line_terminator c) s)"
  by (induction s) auto

lemma split_lines_tl_context:
  "line \<in> set (tl (split_lines s)) \<Longrightarrow>
     \<exists>a b. s = a @ line @ b \<and> a \<noteq> [] \<and> is_line_terminator (last a) \<and> at_line_end b"
proof (induction s)
  case Nil
  then show ?case by simp
next
  case (Cons c s)
  let ?nt = "\<lambda>c. \<not> is_line_terminator c"
  have d: "at_line_end (dropWhile ?nt s)" by (rule at_line_end_dropWhile)
  show ?case
  proof (cases "is_line_terminator c")
    case True
    with Cons.prems have "line \<in> set (split_lines s)" by simp
    then have "line = hd (split_lines s) \<or> line \<in> set (tl (split_lines s))"
      using split_lines_nonempty [of s] by (cases "split_lines s") auto
    then show ?thesis
    proof
      assume "line = hd (split_lines s)"
      then have "c # s = [c] @ line @ dropWhile ?nt s" by (simp add: split_lines_hd)
      with True d show ?thesis
        by (intro exI [of _ "[c]"] exI [of _ "dropWhile ?nt s"]) simp
    next
      assume "line \<in> set (tl (split_lines s))"
      from Cons.IH [OF this] obtain a b where
        ab: "s = a @ line @ b" "a \<noteq> []" "is_line_terminator (last a)" "at_line_end b" by auto
      then show ?thesis
        by (intro exI [of _ "c # a"] exI [of _ b]) simp
    qed
  next
    case False
    with Cons.prems have "line \<in> set (tl (split_lines s))"
      using split_lines_nonempty [of s] by (cases "split_lines s") auto
    from Cons.IH [OF this] obtain a b where
      ab: "s = a @ line @ b" "a \<noteq> []" "is_line_terminator (last a)" "at_line_end b" by auto
    then show ?thesis
      by (intro exI [of _ "c # a"] exI [of _ b]) simp
  qed
qed

lemma split_lines_context:
  assumes "line \<in> set (split_lines s)"
  shows "\<exists>a b. s = a @ line @ b \<and> (a = [] \<or> is_line_terminator (last a)) \<and> at_line_end b"
proof -
  let ?nt = "\<lambda>c. \<not> is_line_terminator c"
  from assms have "line = hd (split_lines s) \<or> line \<in> set (tl (split_lines s))"
    using split_lines_nonempty [of s] by (cases "split_lines s") auto
  then show ?thesis
  proof
    assume "line = hd (split_lines s)"
    then have l: "s = [] @ line @ dropWhile ?nt s" by (simp add: split_lines_hd)
    have "at_line_end (dropWhile ?nt s)" by (rule at_line_end_dropWhile)
    with l show ?thesis by (intro exI [of _ "[]"] exI [of _ "dropWhile ?nt s"]) simp
  next
    assume "line \<in> set (tl (split_lines s))"
    from split_lines_tl_context [OF this] show ?thesis by blast
  qed
qed

lemma trim_context: "\<exists>p q. l = p @ trim l @ q \<and> (\<forall>c\<in>set p. is_space c) \<and> (\<forall>c\<in>set q. is_space c)"
proof -
  let ?d = "dropWhile is_space l"
  have 1: "l = takeWhile is_space l @ ?d" by simp
  have "trim l @ rev (takeWhile is_space (rev ?d))
          = rev (takeWhile is_space (rev ?d) @ dropWhile is_space (rev ?d))"
    by (simp only: trim_def rev_append)
  also have "\<dots> = ?d" by (simp only: takeWhile_dropWhile_id rev_rev_ident)
  finally have 2: "?d = trim l @ rev (takeWhile is_space (rev ?d))" by simp
  have "l = takeWhile is_space l @ trim l @ rev (takeWhile is_space (rev ?d))"
    using 1 2 by (metis (no_types))
  moreover have "\<forall>c\<in>set (takeWhile is_space l). is_space c" by (auto dest: set_takeWhileD)
  moreover have "\<forall>c\<in>set (rev (takeWhile is_space (rev ?d))). is_space c" by (auto dest: set_takeWhileD)
  ultimately show ?thesis by blast
qed

lemma match_trailing_succeeds:
  "\<forall>c\<in>set q. is_space c \<Longrightarrow> at_line_end b \<Longrightarrow> match_trailing (q @ b) \<noteq> None"
proof (induction q)
  case Nil
  then show ?case
    by (cases b) (auto simp: line_terminator_is_space split: option.splits)
next
  case (Cons c q)
  then show ?case by (auto split: option.splits)
qed

lemma match_token_succeeds:
  "\<forall>c\<in>set q. is_space c \<Longrightarrow> at_line_end b \<Longrightarrow> match_token (CAR_MARKER @ q @ b) \<noteq> None"
  using match_trailing_succeeds [of q b] by (auto simp: match_token_def split: option.splits)

lemma match_car_succeeds:
  "\<forall>c\<in>set p. is_space c \<Longrightarrow> \<forall>c\<in>set q. is_space c \<Longrightarrow> at_line_end b \<Longrightarrow>
   match_car (p @ CAR_MARKER @ q @ b) \<noteq> None"
proof (induction p)
  case Nil
  obtain m r where t: "match_token (CAR_MARKER @ q @ b) = Some (m, r)"
    using match_token_succeeds [OF Nil(2,3)] by auto
  have c: "CAR_MARKER = 0x43 # js ''ar();''" by (simp add: CAR_MARKER_def js_def)
  have n: "\<not> is_space (0x43 :: jschar)"
    by (simp add: is_space_def is_white_space_def is_line_terminator_def)
  have "match_car (0x43 # (js ''ar();'' @ q @ b)) = Some ([], m, r)"
    using n t [unfolded c] by simp
  then show ?case by (simp add: c)
next
  case (Cons c p)
  then show ?case by (auto split: option.splits)
qed

lemma no_match_at_line_start:
  "filter is_marker (exec_all bol (a @ s)) = [] \<Longrightarrow>
   (a = [] \<and> bol \<or> a \<noteq> [] \<and> is_line_terminator (last a)) \<Longrightarrow> match_car s = None"
proof (induction a arbitrary: bol)
  case Nil
  then have bol by simp
  show ?case
  proof (rule ccontr)
    assume "match_car s \<noteq> None"
    then obtain ind m r where "match_car s = Some (ind, m, r)" by auto
    with \<open>bol\<close> have "exec_all bol s = Matched ind m # exec_all (is_line_terminator (last m)) r"
      by (subst exec_all.simps) simp
    with Nil(1) show False by simp
  qed
next
  case (Cons c a)
  have n: "(if bol then match_car (c # a @ s) else None) = None"
  proof (rule ccontr)
    assume "(if bol then match_car (c # a @ s) else None) \<noteq> None"
    then obtain ind m r where "(if bol then match_car (c # a @ s) else None) = Some (ind, m, r)" by auto
    then have "exec_all bol (c # a @ s) = Matched ind m # exec_all (is_line_terminator (last m)) r"
      by (subst exec_all.simps) simp
    with Cons.prems(1) show False by simp
  qed
  then have "exec_all bol (c # a @ s) = Unmatched c # exec_all (is_line_terminator c) (a @ s)"
    by (subst exec_all.simps) simp
  with Cons.prems(1) have f: "filter is_marker (exec_all (is_line_terminator c) (a @ s)) = []" by simp
  have "a = [] \<and> is_line_terminator c \<or> a \<noteq> [] \<and> is_line_terminator (last a)"
    using Cons.prems(2) by (cases "a = []") auto
  from Cons.IH [OF f this] show ?case .
qed

lemma marker_line_has_match:
  assumes "line \<in> set (split_lines doc)" "trim line = CAR_MARKER"
  shows "markerCount doc \<noteq> 0"
proof
  assume "markerCount doc = 0"
  then have f: "filter is_marker (exec_all True doc) = []" by (simp add: markerCount_segments)
  from split_lines_context [OF assms(1)] obtain a b where
    ab: "doc = a @ line @ b" "a = [] \<or> is_line_terminator (last a)" "at_line_end b" by auto
  from trim_context [of line] assms(2) obtain p q where
    pq: "line = p @ CAR_MARKER @ q" "\<forall>c\<in>set p. is_space c" "\<forall>c\<in>set q. is_space c" by auto
  have "match_car (line @ b) = None"
    using f ab(1,2) by (intro no_match_at_line_start [of True a]) auto
  moreover have "match_car (line @ b) \<noteq> None"
    using match_car_succeeds [OF pq(2,3) ab(3)] pq(1) by simp
  ultimately show False by simp
qed

lemma markerCount_zero_iff:
  "markerCount doc = 0 \<longleftrightarrow> (\<forall>line\<in>set (split_lines doc). trim line \<noteq> CAR_MARKER)"
  using marker_line_has_match no_marker_line_no_match by blast

text \<open>
  Where a match stands in the list of segments: it is found by \<open>match_car\<close> on the text
  from its start on, and in front of it is the start of the input, a line terminator that
  no match covers, or another match, behind which \<open>$\<close> holds.
\<close>

lemma exec_all_split:
  "exec_all bol s = before @ Matched ind m # after \<Longrightarrow>
     match_car (m @ concat (map segment_text after)) = Some (ind, m, concat (map segment_text after)) \<and>
     (before = [] \<and> bol \<or>
      (\<exists>bs c. before = bs @ [Unmatched c] \<and> is_line_terminator c) \<or>
      (\<exists>bs i' m'. before = bs @ [Matched i' m'] \<and> at_line_end (m @ concat (map segment_text after))))"
proof (induction bol s arbitrary: before rule: exec_all.induct)
  case (1 bol s)
  let ?r = "concat (map segment_text after)"
  show ?case
  proof (cases "if bol then match_car s else None")
    case None
    with 1(3) have "s \<noteq> []" by (subst (asm) exec_all.simps) auto
    then obtain c cs where s: "s = c # cs" by (cases s) auto
    with None 1(3) have e: "Unmatched c # exec_all (is_line_terminator c) cs = before @ Matched ind m # after"
      by (subst (asm) exec_all.simps) auto
    then obtain before' where b: "before = Unmatched c # before'"
      by (cases before) auto
    with e have "exec_all (is_line_terminator c) cs = before' @ Matched ind m # after" by simp
    from 1(1) [OF None s this]
    have mc: "match_car (m @ ?r) = Some (ind, m, ?r)"
      and d: "before' = [] \<and> is_line_terminator c \<or>
        (\<exists>bs c. before' = bs @ [Unmatched c] \<and> is_line_terminator c) \<or>
        (\<exists>bs i' m'. before' = bs @ [Matched i' m'] \<and> at_line_end (m @ ?r))"
      by simp_all
    from d have "(\<exists>bs c. before = bs @ [Unmatched c] \<and> is_line_terminator c) \<or>
        (\<exists>bs i' m'. before = bs @ [Matched i' m'] \<and> at_line_end (m @ ?r))"
    proof (elim disjE exE conjE)
      assume "before' = []" "is_line_terminator c"
      with b have "before = [] @ [Unmatched c] \<and> is_line_terminator c" by simp
      then show ?thesis by blast
    next
      fix bs c'
      assume "before' = bs @ [Unmatched c']" "is_line_terminator c'"
      with b have "before = (Unmatched c # bs) @ [Unmatched c'] \<and> is_line_terminator c'" by simp
      then show ?thesis by blast
    next
      fix bs i' m'
      assume "before' = bs @ [Matched i' m']" "at_line_end (m @ ?r)"
      with b have "before = (Unmatched c # bs) @ [Matched i' m'] \<and> at_line_end (m @ ?r)" by simp
      then show ?thesis by blast
    qed
    with mc show ?thesis by simp
  next
    case (Some a)
    then obtain i0 m0 r0 where a: "a = (i0, m0, r0)" by (cases a) auto
    with Some have m0: "match_car s = Some (i0, m0, r0)" and bol: bol by (auto split: if_splits)
    from match_car_shape [OF m0] have sh: "s = m0 @ r0" "at_line_end r0" by auto
    from 1(3) Some a
    have e: "Matched i0 m0 # exec_all (is_line_terminator (last m0)) r0 = before @ Matched ind m # after"
      by (subst (asm) exec_all.simps) auto
    show ?thesis
    proof (cases before)
      case Nil
      with e have i: "ind = i0" "m = m0" "after = exec_all (is_line_terminator (last m0)) r0" by auto
      then have "?r = r0" by (simp add: exec_all_concat)
      with m0 sh(1) i Nil bol show ?thesis by simp
    next
      case (Cons g before')
      with e have g: "g = Matched i0 m0"
        and "exec_all (is_line_terminator (last m0)) r0 = before' @ Matched ind m # after" by simp_all
      from 1(2) [OF Some a [symmetric] refl this(2)] exec_all_concat [of "is_line_terminator (last m0)" r0] this(2)
      have mc: "match_car (m @ ?r) = Some (ind, m, ?r)"
        and d: "before' = [] \<and> is_line_terminator (last m0) \<or>
          (\<exists>bs c. before' = bs @ [Unmatched c] \<and> is_line_terminator c) \<or>
          (\<exists>bs i' m'. before' = bs @ [Matched i' m'] \<and> at_line_end (m @ ?r))"
        and r0: "r0 = concat (map segment_text before') @ m @ ?r"
        by simp_all
      from d have "(\<exists>bs c. before = bs @ [Unmatched c] \<and> is_line_terminator c) \<or>
        (\<exists>bs i' m'. before = bs @ [Matched i' m'] \<and> at_line_end (m @ ?r))"
      proof (elim disjE exE conjE)
        assume "before' = []" "is_line_terminator (last m0)"
        with Cons g r0 sh(2) have "before = [] @ [Matched i0 m0] \<and> at_line_end (m @ ?r)" by simp
        then show ?thesis by blast
      next
        fix bs c'
        assume "before' = bs @ [Unmatched c']" "is_line_terminator c'"
        with Cons have "before = (g # bs) @ [Unmatched c'] \<and> is_line_terminator c'" by simp
        then show ?thesis by blast
      next
        fix bs i' m'
        assume "before' = bs @ [Matched i' m']" "at_line_end (m @ ?r)"
        with Cons have "before = (g # bs) @ [Matched i' m'] \<and> at_line_end (m @ ?r)" by simp
        then show ?thesis by blast
      qed
      with mc show ?thesis by simp
    qed
  qed
qed

lemma match_car_at_line_end:
  assumes "match_car s = Some (ind, m, r)" "at_line_end s"
  shows "ind \<noteq> [] \<and> is_line_terminator (hd ind)"
proof -
  from match_car_shape [OF assms(1)] obtain w where s: "s = ind @ CAR_MARKER @ w @ r" by auto
  show ?thesis
  proof (cases ind)
    case Nil
    with s assms(2) show ?thesis
      by (simp add: CAR_MARKER_def js_def is_line_terminator_def)
  next
    case (Cons c cs)
    with s assms(2) show ?thesis by simp
  qed
qed

lemma spec_fill_append:
  "spec_fill plan (xs @ ys) =
     spec_fill (take (length (filter is_marker xs)) plan) xs @
     spec_fill (drop (length (filter is_marker xs)) plan) ys"
proof (induction xs arbitrary: plan)
  case Nil
  then show ?case by simp
next
  case (Cons g xs)
  show ?case
  proof (cases g)
    case (Unmatched c)
    with Cons show ?thesis by simp
  next
    case (Matched i' m')
    with Cons show ?thesis by (cases plan) simp_all
  qed
qed

lemma takeWhile_nonempty_take:
  "[] \<notin> set (take k plan) \<Longrightarrow>
   takeWhile (\<lambda>p. p \<noteq> []) plan = take k plan @ takeWhile (\<lambda>p. p \<noteq> []) (drop k plan)"
proof -
  assume a: "[] \<notin> set (take k plan)"
  have "takeWhile (\<lambda>p. p \<noteq> []) (take k plan @ drop k plan)
          = take k plan @ takeWhile (\<lambda>p. p \<noteq> []) (drop k plan)"
    using a by (intro takeWhile_append2) auto
  then show ?thesis by simp
qed

lemma line_of_marker:
  assumes "m = ind @ CAR_MARKER @ w" "\<forall>c\<in>set w. is_space c" "at_line_end r"
    and "\<forall>c\<in>set ind. \<not> is_line_terminator c"
  shows "\<exists>w'. takeWhile (\<lambda>c. \<not> is_line_terminator c) (m @ r) = ind @ CAR_MARKER @ w' \<and>
              (\<forall>c\<in>set w'. is_space c)"
proof -
  let ?nt = "\<lambda>c. \<not> is_line_terminator c"
  have "takeWhile ?nt (m @ r) = ind @ CAR_MARKER @ takeWhile ?nt (w @ r)"
    using assms(1,4) CAR_MARKER_no_terminator by (simp add: takeWhile_append2)
  moreover have "\<forall>c\<in>set (takeWhile ?nt (w @ r)). is_space c"
  proof (cases "\<forall>c\<in>set w. ?nt c")
    case True
    then have "takeWhile ?nt (w @ r) = w @ takeWhile ?nt r" by (simp add: takeWhile_append2)
    moreover from assms(3) have "takeWhile ?nt r = []" by (cases r) auto
    ultimately show ?thesis using assms(2) by simp
  next
    case False
    then obtain x where "x \<in> set w" "\<not> ?nt x" by blast
    then have "takeWhile ?nt (w @ r) = takeWhile ?nt w" by (rule takeWhile_append1)
    with assms(2) show ?thesis by (auto dest: set_takeWhileD)
  qed
  ultimately show ?thesis by blast
qed

section \<open>Properties of the random source, the decoys and the shuffle\<close>

text \<open>
  The rounding, on two products: \<open>5404319552844595 / 2^53 * 5\<close> is \<open>3 - 2^-53\<close> and rounds
  to 3.0, and its product with 1000 rounds to 600.0; \<open>5146971002709138 / 2^53 * 7\<close> is
  \<open>4 - 2^-52\<close>, a tie, and rounds to 4.0.
\<close>

lemma round_double_examples:
  "round_double (5404319552844595 * 5) div 2 ^ 53 = 3"
  "round_double (5404319552844595 * 1000) div 2 ^ 53 = 600"
  "round_double (5146971002709138 * 7) div 2 ^ 53 = 4"
  by (simp_all add: round_double_def double_shift.simps Let_def)

lemma double_shift_bounds:
  "(double_shift p = 0 \<longrightarrow> p < 2 ^ 53) \<and> (0 < double_shift p \<longrightarrow> 2 ^ (52 + double_shift p) \<le> p)"
proof (induction p rule: double_shift.induct)
  case (1 p)
  show ?case
  proof (cases "p < 2 ^ 53")
    case True
    then show ?thesis by (simp add: double_shift.simps)
  next
    case False
    then have s: "double_shift p = Suc (double_shift (p div 2))"
      by (subst double_shift.simps) simp
    have "2 ^ (52 + Suc (double_shift (p div 2))) \<le> p"
    proof (cases "double_shift (p div 2) = 0")
      case True
      with False show ?thesis by simp
    next
      case False
      with 1 \<open>\<not> p < 2 ^ 53\<close> have "2 ^ (52 + double_shift (p div 2)) \<le> p div 2" by simp
      then have "2 * 2 ^ (52 + double_shift (p div 2)) \<le> 2 * (p div 2)" by simp
      also have "\<dots> \<le> p" by simp
      finally show ?thesis by (simp add: power_add)
    qed
    with s show ?thesis by simp
  qed
qed

lemma round_double_upper:
  "round_double p \<le> p + 2 ^ (double_shift p - 1) \<and> (double_shift p = 0 \<longrightarrow> round_double p = p)"
proof (cases "double_shift p = 0")
  case True
  then show ?thesis by (simp add: round_double_def)
next
  case False
  define s where "s = double_shift p"
  define q where "q = p div 2 ^ s"
  define r where "r = p mod 2 ^ s"
  have s: "0 < s" using False by (simp add: s_def)
  then have pw: "(2::nat) ^ s = 2 * 2 ^ (s - 1)" by (cases s) simp_all
  have p: "p = q * 2 ^ s + r" unfolding q_def r_def by (rule div_mult_mod_eq [symmetric])
  have "round_double p = (if 2 ^ (s - 1) < r \<or> (r = 2 ^ (s - 1) \<and> odd q) then (q + 1) * 2 ^ s else q * 2 ^ s)"
    using False by (simp add: round_double_def Let_def s_def q_def r_def)
  moreover have "(q + 1) * 2 ^ s \<le> p + 2 ^ (s - 1)" if "2 ^ (s - 1) \<le> r"
  proof -
    have "(q + 1) * 2 ^ s = q * 2 ^ s + 2 * 2 ^ (s - 1)" using pw by (simp add: algebra_simps)
    also have "\<dots> \<le> q * 2 ^ s + r + 2 ^ (s - 1)" using that by simp
    finally show ?thesis using p by simp
  qed
  moreover have "q * 2 ^ s \<le> p + 2 ^ (s - 1)" using p by simp
  ultimately show ?thesis using False by (auto simp: s_def)
qed

lemma round_double_less:
  assumes "k < 2 ^ 53" "0 < n"
  shows "round_double (k * n) < n * 2 ^ 53"
proof -
  let ?p = "k * n"
  have "Suc k \<le> 2 ^ 53" using assms(1) by simp
  then have "Suc k * n \<le> 2 ^ 53 * n" by (rule mult_le_mono1)
  then have b: "?p + n \<le> n * 2 ^ 53" by (simp add: mult.commute)
  show ?thesis
  proof (cases "double_shift ?p = 0")
    case True
    with round_double_upper [of ?p] have "round_double ?p = ?p" by simp
    also have "?p < ?p + n" using assms(2) by simp
    also note b
    finally show ?thesis .
  next
    case False
    define s where "s = double_shift ?p"
    have s: "0 < s" using False by (simp add: s_def)
    with double_shift_bounds [of ?p] have "2 ^ (52 + s) \<le> ?p" by (simp add: s_def)
    also have "?p < n * 2 ^ 53" using b assms(2) by simp
    finally have "(2::nat) ^ (52 + s) < n * 2 ^ 53" .
    moreover have "(2::nat) ^ (52 + s) = 2 ^ (s - 1) * 2 ^ 53"
      using s by (cases s) (simp_all add: power_add)
    ultimately have "(2::nat) ^ (s - 1) < n" by simp
    with round_double_upper [of ?p] have "round_double ?p < ?p + n" by (simp add: s_def)
    also note b
    finally show ?thesis .
  qed
qed

lemma Math_floor_random_less: "0 < n \<Longrightarrow> fst (Math_floor_random n r) < n"
proof -
  assume n: "0 < n"
  have "unat (doubles r (doubles_used r)) < 2 ^ 53"
    using unsigned_less [of "doubles r (doubles_used r)"] by simp
  from round_double_less [OF this n] show ?thesis
    by (simp add: Math_floor_random_def less_mult_imp_div_less)
qed

lemma Math_floor_random_rng [simp]:
  "doubles (snd (Math_floor_random n r)) = doubles r"
  "octets (snd (Math_floor_random n r)) = octets r"
  "octets_used (snd (Math_floor_random n r)) = octets_used r"
  "doubles_used (snd (Math_floor_random n r)) = Suc (doubles_used r)"
  by (simp_all add: Math_floor_random_def)

lemma Math_floor_random_small:
  "unat (doubles r (doubles_used r)) * n < 2 ^ 53 \<Longrightarrow>
   Math_floor_random n r = (0, r\<lparr>doubles_used := Suc (doubles_used r)\<rparr>)"
  by (simp add: Math_floor_random_def round_double_def double_shift.simps)

lemma fakeTemplates_length: "length (fst (fakeTemplates r)) = 5"
  by (simp add: fakeTemplates_def Let_def split: prod.splits)

lemma js_nonempty: "s \<noteq> [] \<Longrightarrow> js s \<noteq> []"
  by (simp add: js_def)

lemma fakeTemplates_nonempty: "[] \<notin> set (fst (fakeTemplates r))"
  by (simp add: fakeTemplates_def Let_def js_def split: prod.splits)

lemma fakeTemplates_third: "fst (fakeTemplates r) ! 2 = conditionalTemplate"
  by (simp add: fakeTemplates_def Let_def conditionalTemplate_def split: prod.splits)

lemma drawFakes_length:
  assumes "0 < length ts" "[] \<notin> set ts"
  shows "length (fst (drawFakes n ts acc r)) = length acc + n \<and>
         set (fst (drawFakes n ts acc r)) \<subseteq> set acc \<union> set ts \<and>
         take (length acc) (fst (drawFakes n ts acc r)) = acc"
proof (induction n arbitrary: acc r)
  case 0
  then show ?case by simp
next
  case (Suc n)
  obtain k r' where kr: "Math_floor_random (length ts) r = (k, r')" by (cases "Math_floor_random (length ts) r")
  with Math_floor_random_less [OF assms(1), of r] have k: "k < length ts" by simp
  with assms(2) have ne: "ts ! k \<noteq> []" by (metis nth_mem)
  have "drawFakes (Suc n) ts acc r = drawFakes n ts (acc @ [ts ! k]) r'"
    using kr k ne by simp
  with Suc.IH [of "acc @ [ts ! k]" r'] k show ?case
    by (auto simp: take_Suc_conv_app_nth dest: arg_cong [where f = "take (length acc)"])
qed

lemma fakeTemplates_rng:
  "snd (fakeTemplates r) = r\<lparr>octets_used := octets_used r + 18, doubles_used := Suc (doubles_used r)\<rparr>"
  by (simp add: fakeTemplates_def randomBytes_def Math_floor_random_def Let_def split_beta)

lemma drawFakes_rng:
  "snd (drawFakes n ts acc r) = r\<lparr>doubles_used := doubles_used r + n\<rparr>"
  by (induction n arbitrary: acc r) (simp_all add: split_beta Math_floor_random_def)

lemma generateFakePatches_rng:
  "snd (generateFakePatches n r)
     = r\<lparr>octets_used := octets_used r + 18, doubles_used := Suc (doubles_used r) + n\<rparr>"
  by (simp add: generateFakePatches_def split_beta drawFakes_rng fakeTemplates_rng)

lemma drawFakes_third:
  assumes "\<forall>i<n. fst (Math_floor_random 5 (r\<lparr>doubles_used := doubles_used r + i\<rparr>)) = 2"
    and "length ts = 5" "ts ! 2 \<noteq> []"
  shows "fst (drawFakes n ts acc r) = acc @ replicate n (ts ! 2)"
  using assms(1)
proof (induction n arbitrary: acc r)
  case 0
  then show ?case by simp
next
  case (Suc n)
  let ?r' = "snd (Math_floor_random 5 r)"
  from Suc.prems have "fst (Math_floor_random 5 (r\<lparr>doubles_used := doubles_used r + 0\<rparr>)) = 2"
    by blast
  then have k: "fst (Math_floor_random 5 r) = 2" by simp
  have "\<forall>i<n. fst (Math_floor_random 5 (?r'\<lparr>doubles_used := doubles_used ?r' + i\<rparr>)) = 2"
  proof (intro allI impI)
    fix i
    assume "i < n"
    then have "Suc i < Suc n" by simp
    with Suc.prems have "fst (Math_floor_random 5 (r\<lparr>doubles_used := doubles_used r + Suc i\<rparr>)) = 2"
      by blast
    then show "fst (Math_floor_random 5 (?r'\<lparr>doubles_used := doubles_used ?r' + i\<rparr>)) = 2"
      by (simp add: Math_floor_random_def)
  qed
  from Suc.IH [OF this, of "acc @ [ts ! 2]"] k assms(2,3) show ?case
    by (simp add: split_beta replicate_app_Cons_same)
qed

lemma generateFakePatches_third:
  assumes "\<forall>i<n. fst (Math_floor_random 5 (r\<lparr>doubles_used := Suc (doubles_used r) + i\<rparr>)) = 2"
  shows "fst (generateFakePatches n r) = replicate n conditionalTemplate"
proof -
  obtain ts r' where t: "fakeTemplates r = (ts, r')" by (cases "fakeTemplates r")
  with fakeTemplates_rng [of r]
  have r': "r' = r\<lparr>octets_used := octets_used r + 18, doubles_used := Suc (doubles_used r)\<rparr>" by simp
  from t fakeTemplates_length [of r] fakeTemplates_third [of r] have
    l: "length ts = 5" and c: "ts ! 2 = conditionalTemplate" by simp_all
  have ne: "ts ! 2 \<noteq> []" by (simp add: c conditionalTemplate_def js_def)
  from assms have "\<forall>i<n. fst (Math_floor_random 5 (r'\<lparr>doubles_used := doubles_used r' + i\<rparr>)) = 2"
    by (simp add: r' Math_floor_random_def)
  from drawFakes_third [OF this l ne, of "[]"] show ?thesis
    by (simp add: generateFakePatches_def t c)
qed

lemma all_less_two: "P 0 \<Longrightarrow> P (Suc 0) \<Longrightarrow> \<forall>i<2. P i"
  by (auto simp: less_Suc_eq numeral_2_eq_2)

lemma drawFakes_numeral:
  "drawFakes (numeral k) ts acc r = drawFakes (Suc (pred_numeral k)) ts acc r"
  by (simp add: numeral_eq_Suc)

lemmas rng_eval = generateFakePatches_def fakeTemplates_def randomBytes_def Math_floor_random_small
  Let_def toHex_def hex_digit_def decimal.simps js_def conditionalTemplate_def
  drawFakes_numeral

lemma shuffleFrom_mset:
  "i < length xs \<or> i = 0 \<Longrightarrow> mset (fst (shuffleFrom i xs r)) = mset xs"
proof (induction i arbitrary: xs r)
  case 0
  then show ?case by simp
next
  case (Suc i)
  obtain j r' where jr: "Math_floor_random (Suc i + 1) r = (j, r')"
    by (cases "Math_floor_random (Suc i + 1) r")
  with Math_floor_random_less [of "Suc i + 1" r] have j: "j < Suc i + 1" by simp
  from Suc.prems have i: "Suc i < length xs" by simp
  let ?ys = "xs[Suc i := xs ! j, j := xs ! Suc i]"
  have m: "mset ?ys = mset xs" using i j by (simp add: mset_swap)
  have "i < length ?ys \<or> i = 0" using i by simp
  from Suc.IH [OF this, of r'] m jr show ?case by (simp add: Let_def)
qed

lemma shuffleArray_mset: "mset (fst (shuffleArray xs r)) = mset xs"
  by (cases xs) (simp_all add: shuffleArray_def shuffleFrom_mset)

section \<open>Properties of the pipeline\<close>

lemma loadAndPatch_unreadable:
  "readFile P (host w) filePath = Inl e \<Longrightarrow>
   loadAndPatch P filePath config w =
     (\<lparr>originalFile = [], patchedFile = [], patchesApplied = 0, executionResult = None,
       errors = Some [js ''Failed to load file: '' @ message e]\<rparr>, w)"
  by (simp add: loadAndPatch_def)

lemma loadAndPatch_no_markers:
  "readFile P (host w) filePath = Inr doc \<Longrightarrow> markerCount doc = 0 \<Longrightarrow>
   loadAndPatch P filePath config w =
     (\<lparr>originalFile = doc, patchedFile = doc, patchesApplied = 0, executionResult = None,
       errors = Some [js ''No Car(); markers found in file'']\<rparr>, w)"
  by (simp add: loadAndPatch_def)

lemma loadAndPatch_patched:
  "readFile P (host w) filePath = Inr doc \<Longrightarrow> markerCount doc \<noteq> 0 \<Longrightarrow>
   preparePatches config (markerCount doc) (entropy w) = (plan, r') \<Longrightarrow>
   applyPatches doc plan = (patched, k) \<Longrightarrow>
   loadAndPatch P filePath config w =
     (\<lparr>originalFile = doc, patchedFile = patched, patchesApplied = k, executionResult = None,
       errors = Some []\<rparr>, w\<lparr>entropy := r'\<rparr>)"
  by (simp add: loadAndPatch_def)

lemma preparePatches_plain:
  "preparePatches (plain_config ps) n r = (ps, r)"
  by (simp add: preparePatches_def combinedPatches_def plain_config_def truthy_def)

lemma preparePatches_preserveOriginal:
  "preparePatches (config\<lparr>preserveOriginal := b\<rparr>) n r = preparePatches config n r"
  by (simp add: preparePatches_def combinedPatches_def)

lemma loadAndPatch_preserveOriginal:
  "loadAndPatch P filePath (config\<lparr>preserveOriginal := b\<rparr>) w = loadAndPatch P filePath config w"
  by (simp add: loadAndPatch_def preparePatches_preserveOriginal split: sum.splits)

lemma loadAndPatch_originalFile:
  "readFile P (host w) filePath = Inr doc \<Longrightarrow> originalFile (fst (loadAndPatch P filePath config w)) = doc"
  by (simp add: loadAndPatch_def split_beta)

lemma loadAndPatch_result:
  assumes "readFile P (host w) filePath = Inr doc" "markerCount doc \<noteq> 0"
  shows "fst (loadAndPatch P filePath config w) =
     \<lparr>originalFile = doc,
      patchedFile = fst (applyPatches doc (fst (preparePatches config (markerCount doc) (entropy w)))),
      patchesApplied = snd (applyPatches doc (fst (preparePatches config (markerCount doc) (entropy w)))),
      executionResult = None, errors = Some []\<rparr>"
proof -
  obtain plan r' where p: "preparePatches config (markerCount doc) (entropy w) = (plan, r')"
    by (cases "preparePatches config (markerCount doc) (entropy w)")
  obtain patched k where a: "applyPatches doc plan = (patched, k)"
    by (cases "applyPatches doc plan")
  from loadAndPatch_patched [OF assms p a] p a show ?thesis by simp
qed

lemma preparePatches_no_flags:
  "\<not> truthy (addFakePatches config) \<Longrightarrow> \<not> truthy (randomizeOrder config) \<Longrightarrow>
   preparePatches config n r = (patches config, r)"
  by (simp add: preparePatches_def combinedPatches_def)


lemma loadAndPatch_cases:
  obtains (unreadable) e where "readFile P (host w) filePath = Inl e"
      "loadAndPatch P filePath config w =
         (\<lparr>originalFile = [], patchedFile = [], patchesApplied = 0, executionResult = None,
           errors = Some [js ''Failed to load file: '' @ message e]\<rparr>, w)"
    | (no_markers) doc where "readFile P (host w) filePath = Inr doc" "markerCount doc = 0"
      "loadAndPatch P filePath config w =
         (\<lparr>originalFile = doc, patchedFile = doc, patchesApplied = 0, executionResult = None,
           errors = Some [js ''No Car(); markers found in file'']\<rparr>, w)"
    | (patched) doc patched k r' where "readFile P (host w) filePath = Inr doc" "markerCount doc \<noteq> 0"
      "loadAndPatch P filePath config w =
         (\<lparr>originalFile = doc, patchedFile = patched, patchesApplied = k, executionResult = None,
           errors = Some []\<rparr>, w\<lparr>entropy := r'\<rparr>)"
proof (cases "readFile P (host w) filePath")
  case (Inl e)
  from unreadable [OF Inl loadAndPatch_unreadable [OF Inl]] show ?thesis .
next
  case (Inr doc)
  show ?thesis
  proof (cases "markerCount doc = 0")
    case True
    from no_markers [OF Inr True loadAndPatch_no_markers [OF Inr True]] show ?thesis .
  next
    case False
    obtain plan r' where p: "preparePatches config (markerCount doc) (entropy w) = (plan, r')"
      by (cases "preparePatches config (markerCount doc) (entropy w)")
    obtain patched k where a: "applyPatches doc plan = (patched, k)"
      by (cases "applyPatches doc plan")
    from patched [OF Inr False loadAndPatch_patched [OF Inr False p a]] show ?thesis .
  qed
qed

lemma loadAndPatch_clean:
  assumes "loadAndPatch P filePath config w = (patchResult, w1)" "\<not> hasErrors patchResult"
  shows "errors patchResult = Some [] \<and> executionResult patchResult = None"
  by (rule loadAndPatch_cases [where P = P and w = w and filePath = filePath and config = config])
     (use assms in \<open>auto simp: hasErrors_def\<close>)

lemma loadAndPatch_failed:
  assumes "loadAndPatch P filePath config w = (patchResult, w1)" "hasErrors patchResult"
  shows "w1 = w \<and> executionResult patchResult = None"
  by (rule loadAndPatch_cases [where P = P and w = w and filePath = filePath and config = config])
     (use assms in \<open>auto simp: hasErrors_def\<close>)

lemma runWithPatches_stops_on_errors:
  assumes "loadAndPatch P filePath config w = (patchResult, w1)" "hasErrors patchResult"
  shows "runWithPatches P filePath config ctx w = (Fulfilled patchResult, w)"
  using assms loadAndPatch_failed [OF assms] by (simp add: runWithPatches_def)

lemma runWithPatches_run:
  assumes "loadAndPatch P filePath config w = (patchResult, w1)" "\<not> hasErrors patchResult"
    and "runScript P (patchedFile patchResult) (defaultSandbox P ++ ctx) 5000 (host w1) = (run, h')"
  shows "runWithPatches P filePath config ctx w =
     (case run of
        Returned (Fulfilled v) \<Rightarrow> Fulfilled (patchResult\<lparr>executionResult := Some v\<rparr>)
      | Returned (Rejected (Message m)) \<Rightarrow> Fulfilled (patchResult\<lparr>errors := Some [js ''Execution error: '' @ m]\<rparr>)
      | Returned (Rejected (NoMessage y)) \<Rightarrow> Rejected y
      | Returned (Rejected Endless) \<Rightarrow> Pending
      | Returned Pending \<Rightarrow> Pending
      | Stopped \<Rightarrow> Pending
      | Threw (Message m) \<Rightarrow>
          Fulfilled (patchResult\<lparr>errors := Some [js ''Execution error: Execution failed: '' @ m]\<rparr>)
      | Threw (NoMessage (Message m)) \<Rightarrow> Fulfilled (patchResult\<lparr>errors := Some [js ''Execution error: '' @ m]\<rparr>)
      | Threw (NoMessage (NoMessage y)) \<Rightarrow> Rejected y
      | Threw (NoMessage Endless) \<Rightarrow> Pending
      | Threw Endless \<Rightarrow> Pending,
      w1\<lparr>host := h'\<rparr>)"
  using assms loadAndPatch_clean [OF assms(1,2)]
  by (simp add: runWithPatches_def executePatched_def js_def split: run.splits promise.splits thrown.splits)




lemma batchEntry_fulfilled:
  "runWithPatches P filePath config ctx w = (Fulfilled r, w') \<Longrightarrow>
   batchEntry P filePath config ctx w = (Fulfilled r, w')"
  by (simp add: batchEntry_def)












lemma batchEntry_value:
  assumes "loadAndPatch P filePath config v = (patchResult, v1)" "\<not> hasErrors patchResult"
    and "runScript P (patchedFile patchResult) (defaultSandbox P ++ ctx) 5000 (host v1) = (Returned (Fulfilled x), h')"
  shows "batchEntry P filePath config ctx v =
     (Fulfilled (patchResult\<lparr>executionResult := Some x\<rparr>), v1\<lparr>host := h'\<rparr>)"
  using runWithPatches_run [OF assms] by (intro batchEntry_fulfilled) simp

lemma runWithPatches_originalFile:
  assumes "fst (runWithPatches P filePath config ctx w) = Fulfilled result"
  shows "originalFile result = originalFile (fst (loadAndPatch P filePath config w))"
proof -
  obtain pr w1 where l: "loadAndPatch P filePath config w = (pr, w1)"
    by (cases "loadAndPatch P filePath config w")
  show ?thesis
  proof (cases "hasErrors pr")
    case True
    from runWithPatches_stops_on_errors [OF l True, of ctx] assms l show ?thesis by simp
  next
    case False
    obtain run h' where r: "runScript P (patchedFile pr) (defaultSandbox P ++ ctx) 5000 (host w1) = (run, h')"
      by (cases "runScript P (patchedFile pr) (defaultSandbox P ++ ctx) 5000 (host w1)")
    from runWithPatches_run [OF l False r] assms l show ?thesis
      by (auto split: run.splits promise.splits thrown.splits)
  qed
qed

section \<open>Properties of the examples\<close>




text \<open>
  What \<open>executePatched\<close> does with the runs that no \<open>Execution failed\<close> wraps: the rejection
  of a promise that the script returns is passed on as it is, the message of \<open>null\<close> cannot
  be read and the \<open>TypeError\<close> of the reading is passed on, and the promise never settles
  when the script ends the process.
\<close>

lemma demo_unwrapped_runs:
  \<open>executePatched demo_platform (js ''Promise.reject(new Error("7"))'') Map.empty h
     = (Rejected (Message (js ''7'')), h)\<close>
  \<open>executePatched demo_platform (js ''throw null'') Map.empty h
     = (Rejected (Message (js ''Cannot read properties of null (reading 'message')'')), h)\<close>
  \<open>executePatched demo_platform (js ''process.exit()'') Map.empty h = (Pending, h)\<close>
  by (simp_all add: executePatched_def demo_platform_def busy_script_def counting_script_def js_def)









section \<open>The claims\<close>

subsection \<open>The applicator\<close>

text \<open>
  C1, as the code has it. When no element of the plan is the empty string, the applicator
  does what the specification says: the markers are taken in ascending order, the i-th
  marker receives the i-th element of the plan if one exists and is otherwise left
  verbatim, and \<open>patchesApplied\<close> is the smaller of the plan's length and the number of
  markers, so it is the plan's length when the plan is the shorter. The segments put
  together are the document, and every match holds the literal marker text behind its
  capture group. With neither decoys nor shuffling requested the plan is the list of
  patches of the configuration, and this is the outcome of \<open>loadAndPatch\<close> for a file that
  can be read and has a marker.
\<close>

theorem fill_in_order:
  assumes "[] \<notin> set plan"
  shows "applyPatches doc plan =
           (spec_fill plan (exec_all True doc), min (length plan) (markerCount doc)) \<and>
         (length plan < markerCount doc \<longrightarrow> snd (applyPatches doc plan) = length plan) \<and>
         concat (map segment_text (exec_all True doc)) = doc \<and>
         (\<forall>ind m. Matched ind m \<in> set (exec_all True doc) \<longrightarrow> (\<exists>w. m = ind @ CAR_MARKER @ w)) \<and>
         (readFile P (host w) filePath = Inr doc \<longrightarrow> markerCount doc \<noteq> 0 \<longrightarrow>
          \<not> truthy (addFakePatches config) \<longrightarrow> \<not> truthy (randomizeOrder config) \<longrightarrow>
          patches config = plan \<longrightarrow>
            fst (loadAndPatch P filePath config w) =
              \<lparr>originalFile = doc, patchedFile = spec_fill plan (exec_all True doc),
               patchesApplied = min (length plan) (markerCount doc),
               executionResult = None, errors = Some []\<rparr>)"
proof -
  have a: "applyPatches doc plan =
           (spec_fill plan (exec_all True doc), min (length plan) (markerCount doc))"
    using assms by (simp add: applyPatches_general takeWhile_nonempty_all)
  have b: "\<forall>ind m. Matched ind m \<in> set (exec_all True doc) \<longrightarrow> (\<exists>w. m = ind @ CAR_MARKER @ w)"
    using exec_all_marker_shape by blast
  have c: "fst (loadAndPatch P filePath config w) =
              \<lparr>originalFile = doc, patchedFile = spec_fill plan (exec_all True doc),
               patchesApplied = min (length plan) (markerCount doc),
               executionResult = None, errors = Some []\<rparr>"
    if "readFile P (host w) filePath = Inr doc" "markerCount doc \<noteq> 0"
       "\<not> truthy (addFakePatches config)" "\<not> truthy (randomizeOrder config)" "patches config = plan"
    using loadAndPatch_result [OF that(1,2), of config] that(5) a
    by (simp add: preparePatches_no_flags [OF that(3,4)])
  from a b c show ?thesis by (simp add: exec_all_concat)
qed

theorem fill_in_order_witness:
  "[] \<notin> set [js ''X();''] \<and>
   readFile demo_platform (host demo_world) (js ''/scenarioA.js'')
     = Inr (js ''a\<newline>Car();\<newline>b\<newline>Car();\<newline>c'') \<and>
   markerCount (js ''a\<newline>Car();\<newline>b\<newline>Car();\<newline>c'') = 2 \<and>
   patches (plain_config [js ''X();'']) = [js ''X();''] \<and>
   fst (loadAndPatch demo_platform (js ''/scenarioA.js'') (plain_config [js ''X();'']) demo_world)
     = \<lparr>originalFile = js ''a\<newline>Car();\<newline>b\<newline>Car();\<newline>c'',
        patchedFile = js ''a\<newline>X();\<newline>b\<newline>Car();\<newline>c'',
        patchesApplied = 1, executionResult = None, errors = Some []\<rparr>"
proof -
  let ?doc = "js ''a\<newline>Car();\<newline>b\<newline>Car();\<newline>c''"
  have h: "[] \<notin> set [js ''X();'']" by (simp add: js_def)
  have r: "readFile demo_platform (host demo_world) (js ''/scenarioA.js'') = Inr ?doc"
    by (simp add: demo_platform_def js_def)
  have e: "spec_fill [js ''X();''] (exec_all True ?doc) = js ''a\<newline>X();\<newline>b\<newline>Car();\<newline>c''"
    by code_simp
  have c: "markerCount ?doc = 2" by code_simp
  then have c0: "markerCount ?doc \<noteq> 0" by simp
  have f: "\<not> truthy (addFakePatches (plain_config [js ''X();'']))"
          "\<not> truthy (randomizeOrder (plain_config [js ''X();'']))"
          "patches (plain_config [js ''X();'']) = [js ''X();'']"
    by (simp_all add: plain_config_def truthy_def)
  from fill_in_order [OF h, of ?doc demo_platform demo_world "js ''/scenarioA.js''" "plain_config [js ''X();'']"]
  have "fst (loadAndPatch demo_platform (js ''/scenarioA.js'') (plain_config [js ''X();'']) demo_world) =
              \<lparr>originalFile = ?doc, patchedFile = spec_fill [js ''X();''] (exec_all True ?doc),
               patchesApplied = min (length [js ''X();'']) (markerCount ?doc),
               executionResult = None, errors = Some []\<rparr>"
    using r c0 f by blast
  then show ?thesis using h r c f(3) by (simp add: e)
qed

text \<open>
  C1 as stated fails for a plan with an empty string: with three markers and the plan
  \<open>["", "X();"]\<close> the second marker does not receive \<open>X();\<close> and \<open>patchesApplied\<close> is 0,
  not the plan's length 2.
\<close>

theorem fill_in_order_counterexample:
  "markerCount (js ''Car();\<newline>Car();\<newline>Car();'') = 3 \<and>
   applyPatches (js ''Car();\<newline>Car();\<newline>Car();'') [[], js ''X();'']
     = (js ''Car();\<newline>Car();\<newline>Car();'', 0) \<and>
   spec_fill [[], js ''X();''] (exec_all True (js ''Car();\<newline>Car();\<newline>Car();''))
     = js ''\<newline>X();\<newline>Car();''"
  by code_simp

text \<open>
  C2, as the code has it, for a marker whose capture group holds no line terminator. The
  match begins at the start of a line, and the line of the marker is the capture group,
  the marker text and white space: the capture group is the leading white space of the
  marker's line. When the marker is substituted (the elements of the plan up to its own
  are not empty), the match is replaced by the fragment in which every line with a
  character that is not white space has the capture group in front and every other line is
  unchanged; these are the lines of the replacement, one for one, and the replacement
  begins at the start of a line of the patched text. So the leading white space of an
  inserted line is that of the marker's line followed by that of the fragment's line.
\<close>

theorem fragment_lines_take_marker_indent:
  assumes "exec_all True doc = before @ Matched ind m # after"
    and "\<forall>c\<in>set ind. \<not> is_line_terminator c"
    and "i = length (filter is_marker before)"
    and "i < length plan" and "[] \<notin> set (take (Suc i) plan)"
  shows "doc = concat (map segment_text before) @ m @ concat (map segment_text after) \<and>
         (before = [] \<or> (\<exists>bs c. before = bs @ [Unmatched c] \<and> is_line_terminator c)) \<and>
         (\<exists>w. takeWhile (\<lambda>c. \<not> is_line_terminator c) (m @ concat (map segment_text after))
                 = ind @ CAR_MARKER @ w \<and>
               (\<forall>c\<in>set w. is_space c) \<and>
               takeWhile is_space (ind @ CAR_MARKER @ w) = ind) \<and>
         fst (applyPatches doc plan) =
           spec_fill (take i plan) before @ indentPatch ind (plan ! i) @
           spec_fill (takeWhile (\<lambda>p. p \<noteq> []) (drop (Suc i) plan)) after \<and>
         (spec_fill (take i plan) before = [] \<or>
          is_line_terminator (last (spec_fill (take i plan) before))) \<and>
         split_newline (indentPatch ind (plan ! i)) =
           map (\<lambda>line. if (\<exists>c\<in>set line. \<not> is_space c) then ind @ line else line)
               (split_newline (plan ! i)) \<and>
         (\<forall>line. takeWhile is_space (ind @ line) = ind @ takeWhile is_space line)"
proof -
  let ?r = "concat (map segment_text after)"
  let ?f = "\<lambda>line. if (\<exists>c\<in>set line. \<not> is_space c) then ind @ line else line"
  let ?ne = "\<lambda>p. p \<noteq> ([] :: jsstring)"
  from exec_all_concat [of True doc] assms(1)
  have 1: "doc = concat (map segment_text before) @ m @ ?r" by simp
  from exec_all_split [OF assms(1)]
  have mc: "match_car (m @ ?r) = Some (ind, m, ?r)"
    and d: "before = [] \<or> (\<exists>bs c. before = bs @ [Unmatched c] \<and> is_line_terminator c) \<or>
      (\<exists>bs i' m'. before = bs @ [Matched i' m'] \<and> at_line_end (m @ ?r))"
    by auto
  have "\<not> at_line_end (m @ ?r)"
  proof
    assume "at_line_end (m @ ?r)"
    from match_car_at_line_end [OF mc this] assms(2) show False
      by (cases ind) auto
  qed
  with d have 2: "before = [] \<or> (\<exists>bs c. before = bs @ [Unmatched c] \<and> is_line_terminator c)"
    by blast
  from match_car_shape [OF mc] obtain w0 where
    sh: "m = ind @ CAR_MARKER @ w0" "\<forall>c\<in>set ind. is_space c" "\<forall>c\<in>set w0. is_space c" "at_line_end ?r"
    by auto
  from line_of_marker [OF sh(1,3,4) assms(2)] obtain w where
    w: "takeWhile (\<lambda>c. \<not> is_line_terminator c) (m @ ?r) = ind @ CAR_MARKER @ w" "\<forall>c\<in>set w. is_space c"
    by blast
  have "takeWhile is_space (CAR_MARKER @ w) = []"
    by (simp add: CAR_MARKER_def js_def is_space_def is_white_space_def is_line_terminator_def)
  then have "takeWhile is_space (ind @ CAR_MARKER @ w) = ind"
    using sh(2) by (simp add: takeWhile_space_append)
  with w have 3: "\<exists>w. takeWhile (\<lambda>c. \<not> is_line_terminator c) (m @ ?r) = ind @ CAR_MARKER @ w \<and>
               (\<forall>c\<in>set w. is_space c) \<and> takeWhile is_space (ind @ CAR_MARKER @ w) = ind"
    by blast
  have t: "takeWhile ?ne plan = take (Suc i) plan @ takeWhile ?ne (drop (Suc i) plan)"
    using assms(5) by (rule takeWhile_nonempty_take)
  have s: "take (Suc i) plan = take i plan @ [plan ! i]"
    using assms(4) by (rule take_Suc_conv_app_nth)
  have l: "length (take i plan) = i" using assms(4) by simp
  have "spec_fill (takeWhile ?ne plan) (before @ Matched ind m # after)
      = spec_fill (take i (takeWhile ?ne plan)) before @
        spec_fill (drop i (takeWhile ?ne plan)) (Matched ind m # after)"
    unfolding assms(3) by (rule spec_fill_append)
  also have "take i (takeWhile ?ne plan) = take i plan"
    unfolding t s using l by simp
  also have "drop i (takeWhile ?ne plan) = plan ! i # takeWhile ?ne (drop (Suc i) plan)"
    unfolding t s using l by simp
  finally have 4: "fst (applyPatches doc plan) =
           spec_fill (take i plan) before @ indentPatch ind (plan ! i) @
           spec_fill (takeWhile ?ne (drop (Suc i) plan)) after"
    by (simp add: applyPatches_general assms(1))
  from 2 have 5: "spec_fill (take i plan) before = [] \<or>
          is_line_terminator (last (spec_fill (take i plan) before))"
  proof
    assume "before = []"
    then show ?thesis by simp
  next
    assume "\<exists>bs c. before = bs @ [Unmatched c] \<and> is_line_terminator c"
    then obtain bs c where "before = bs @ [Unmatched c]" "is_line_terminator c" by blast
    then show ?thesis by (simp add: spec_fill_append)
  qed
  have n: "0x0A \<notin> set ind" using assms(2) by (auto simp: is_line_terminator_def)
  have a: "indentPatch ind (plan ! i) = join_newline (map ?f (split_newline (plan ! i)))"
    by (simp add: indentPatch_def trim_nonempty_iff)
  have "\<forall>l\<in>set (map ?f (split_newline (plan ! i))). 0x0A \<notin> set l"
    using n split_newline_no_newline by auto
  then have 6: "split_newline (indentPatch ind (plan ! i)) = map ?f (split_newline (plan ! i))"
    unfolding a by (intro split_join_newline) (simp_all add: split_newline_nonempty)
  have 7: "\<forall>line. takeWhile is_space (ind @ line) = ind @ takeWhile is_space line"
    using sh(2) by (simp add: takeWhile_space_append)
  from 1 2 3 4 5 6 7 show ?thesis by (intro conjI)
qed

theorem fragment_lines_take_marker_indent_witness:
  "exec_all True (js ''f();\<newline>  Car();'')
     = [Unmatched 0x66, Unmatched 0x28, Unmatched 0x29, Unmatched 0x3B, Unmatched 0x0A] @
       Matched (js ''  '') (js ''  Car();'') # [] \<and>
   is_line_terminator 0x0A \<and>
   [js ''a\<newline>\<newline>  b''] ! 0 = js ''a\<newline>\<newline>  b'' \<and>
   fst (applyPatches (js ''f();\<newline>  Car();'') [js ''a\<newline>\<newline>  b'']) = js ''f();\<newline>  a\<newline>\<newline>    b'' \<and>
   split_newline (indentPatch (js ''  '') (js ''a\<newline>\<newline>  b'')) = [js ''  a'', [], js ''    b'']"
proof -
  let ?before = "[Unmatched 0x66, Unmatched 0x28, Unmatched 0x29, Unmatched 0x3B, Unmatched 0x0A]"
  have h1: "exec_all True (js ''f();\<newline>  Car();'') = ?before @ Matched (js ''  '') (js ''  Car();'') # []"
    by code_simp
  have h2: "\<forall>c\<in>set (js ''  ''). \<not> is_line_terminator c" by code_simp
  have h3: "0 = length (filter is_marker ?before)" by simp
  have h4: "0 < length [js ''a\<newline>\<newline>  b'']" by simp
  have h5: "[] \<notin> set (take (Suc 0) [js ''a\<newline>\<newline>  b''])" by (simp add: js_def)
  have t: "is_line_terminator 0x0A" by (simp add: is_line_terminator_def)
  have e: "map (\<lambda>line. if (\<exists>c\<in>set line. \<not> is_space c) then js ''  '' @ line else line)
               (split_newline (js ''a\<newline>\<newline>  b'')) = [js ''  a'', [], js ''    b'']"
    by code_simp
  have f: "spec_fill (take 0 [js ''a\<newline>\<newline>  b'']) ?before @ indentPatch (js ''  '') ([js ''a\<newline>\<newline>  b''] ! 0) @
           spec_fill (takeWhile (\<lambda>p. p \<noteq> []) (drop (Suc 0) [js ''a\<newline>\<newline>  b''])) []
             = js ''f();\<newline>  a\<newline>\<newline>    b''"
    by code_simp
  note r = fragment_lines_take_marker_indent [OF h1 h2 h3 h4 h5]
  from r have "fst (applyPatches (js ''f();\<newline>  Car();'') [js ''a\<newline>\<newline>  b'']) =
           spec_fill (take 0 [js ''a\<newline>\<newline>  b'']) ?before @ indentPatch (js ''  '') ([js ''a\<newline>\<newline>  b''] ! 0) @
           spec_fill (takeWhile (\<lambda>p. p \<noteq> []) (drop (Suc 0) [js ''a\<newline>\<newline>  b''])) []"
    by (elim conjE)
  then have 1: "fst (applyPatches (js ''f();\<newline>  Car();'') [js ''a\<newline>\<newline>  b'']) = js ''f();\<newline>  a\<newline>\<newline>    b''"
    by (simp only: f)
  from r have "split_newline (indentPatch (js ''  '') ([js ''a\<newline>\<newline>  b''] ! 0)) =
           map (\<lambda>line. if (\<exists>c\<in>set line. \<not> is_space c) then js ''  '' @ line else line)
               (split_newline ([js ''a\<newline>\<newline>  b''] ! 0))"
    by (elim conjE)
  then have 2: "split_newline (indentPatch (js ''  '') (js ''a\<newline>\<newline>  b'')) = [js ''  a'', [], js ''    b'']"
    by (simp only: e nth_Cons_0)
  have 3: "[js ''a\<newline>\<newline>  b''] ! 0 = js ''a\<newline>\<newline>  b''" by simp
  from h1 t 3 1 2 show ?thesis by (intro conjI)
qed

text \<open>
  C2 as stated fails for a fragment line that starts with white space of its own: under the
  marker \<open>Car();\<close> indented by two spaces, the line \<open>b\<close> indented by two spaces is inserted
  with four spaces in front, not with the marker's two.
\<close>

theorem indentation_identical_counterexample:
  "exec_all True (js ''  Car();'') = [Matched (js ''  '') (js ''  Car();'')] \<and>
   applyPatches (js ''  Car();'') [js ''a\<newline>  b''] = (js ''  a\<newline>    b'', 1) \<and>
   split_newline (js ''  a\<newline>    b'') = [js ''  a'', js ''    b''] \<and>
   takeWhile is_space (js ''    b'') \<noteq> js ''  ''"
  by code_simp

text \<open>
  C10. When the plan holds an empty string, with \<open>pre\<close> the elements in front of the first
  one: the markers receive the elements of \<open>pre\<close> in order, the marker that would receive
  the empty string and every later marker are left verbatim, and \<open>patchesApplied\<close> is the
  length of \<open>pre\<close>, capped at the number of markers, whatever follows the empty string.
\<close>

theorem empty_fragment_halts_substitution:
  assumes "[] \<notin> set pre"
  shows "applyPatches doc (pre @ [] # post) =
           (spec_fill pre (exec_all True doc), min (length pre) (markerCount doc))"
  using assms by (simp add: applyPatches_general takeWhile_nonempty_prefix)

theorem empty_fragment_halts_substitution_witness:
  "[] \<notin> set [js ''X();''] \<and>
   applyPatches (js ''Car();\<newline>Car();\<newline>Car();'') ([js ''X();''] @ [] # [js ''Y();''])
     = (js ''X();\<newline>Car();\<newline>Car();'', 1)"
proof -
  have h: "[] \<notin> set [js ''X();'']" by (simp add: js_def)
  have e: "spec_fill [js ''X();''] (exec_all True (js ''Car();\<newline>Car();\<newline>Car();''))
             = js ''X();\<newline>Car();\<newline>Car();''"
    by code_simp
  have c: "markerCount (js ''Car();\<newline>Car();\<newline>Car();'') = 3"
    by code_simp
  from empty_fragment_halts_substitution [OF h, of "js ''Car();\<newline>Car();\<newline>Car();''" "[js ''Y();'']"] h e c
  show ?thesis by simp
qed

subsection \<open>The planner\<close>

text \<open>
  C8. With \<open>addFakePatches\<close> set, the list built in lines 56 to 63 is the real patches in
  their order followed by the decoys, and \<open>generateFakePatches n\<close> returns exactly \<open>n\<close>
  decoys, each one of the five templates of the call and none empty. The function has no
  failing branch: every draw lies within the template array. In \<open>loadAndPatch\<close> the number
  asked for is the number of markers of the document, and without shuffling the list is
  what the applicator reads.
\<close>

theorem decoys_follow_real_fragments:
  assumes "truthy (addFakePatches config)"
  shows "fst (combinedPatches config n r) = patches config @ fst (generateFakePatches n r) \<and>
         length (fst (generateFakePatches n r)) = n \<and>
         set (fst (generateFakePatches n r)) \<subseteq> set (fst (fakeTemplates r)) \<and>
         [] \<notin> set (fst (generateFakePatches n r)) \<and>
         (readFile P (host w) filePath = Inr doc \<longrightarrow> markerCount doc \<noteq> 0 \<longrightarrow>
          \<not> truthy (randomizeOrder config) \<longrightarrow>
            patchedFile (fst (loadAndPatch P filePath config w))
              = fst (applyPatches doc
                       (patches config @ fst (generateFakePatches (markerCount doc) (entropy w)))))"
proof -
  obtain ts r' where t: "fakeTemplates r = (ts, r')" by (cases "fakeTemplates r")
  with fakeTemplates_length [of r] fakeTemplates_nonempty [of r]
  have l: "0 < length ts" and ne: "[] \<notin> set ts" by simp_all
  have g: "generateFakePatches n r = drawFakes n ts [] r'"
    by (simp add: generateFakePatches_def t)
  from drawFakes_length [OF l ne, of n "[]" r'] g t ne
  have 1: "length (fst (generateFakePatches n r)) = n \<and>
        set (fst (generateFakePatches n r)) \<subseteq> set (fst (fakeTemplates r)) \<and>
        [] \<notin> set (fst (generateFakePatches n r))"
    by auto
  have c: "fst (combinedPatches config m s) = patches config @ fst (generateFakePatches m s)" for m s
    using assms by (simp add: combinedPatches_def split: prod.splits)
  have 2: "patchedFile (fst (loadAndPatch P filePath config w))
              = fst (applyPatches doc
                       (patches config @ fst (generateFakePatches (markerCount doc) (entropy w))))"
    if "readFile P (host w) filePath = Inr doc" "markerCount doc \<noteq> 0" "\<not> truthy (randomizeOrder config)"
  proof -
    have "fst (preparePatches config (markerCount doc) (entropy w))
            = fst (combinedPatches config (markerCount doc) (entropy w))"
      using that(3) by (simp add: preparePatches_def split_beta)
    with loadAndPatch_result [OF that(1,2), of config] c show ?thesis by simp
  qed
  from 1 2 c show ?thesis by blast
qed

theorem decoys_follow_real_fragments_witness:
  "truthy (addFakePatches decoy_config) \<and>
   readFile demo_platform (host demo_world) (js ''/a.js'') = Inr (js ''Car();'') \<and>
   markerCount (js ''Car();'') = 1 \<and>
   fst (combinedPatches decoy_config 1 low_rng) = [js ''console.log(\"Fake patch 00010203\");''] \<and>
   patchedFile (fst (loadAndPatch demo_platform (js ''/a.js'') decoy_config demo_world))
     = js ''console.log(\"Fake patch 00010203\");''"
proof -
  have h: "truthy (addFakePatches decoy_config)" by (simp add: truthy_def decoy_config_def)
  have n: "\<not> truthy (randomizeOrder decoy_config)" by (simp add: truthy_def decoy_config_def)
  have p: "patches decoy_config = []" by (simp add: decoy_config_def)
  have r: "readFile demo_platform (host demo_world) (js ''/a.js'') = Inr (js ''Car();'')"
    by (simp add: demo_platform_def)
  have c: "markerCount (js ''Car();'') = 1" by code_simp
  then have c0: "markerCount (js ''Car();'') \<noteq> 0" by simp
  have w: "entropy demo_world = low_rng" by (simp add: demo_world_def)
  have e: "fst (generateFakePatches 1 low_rng) = [js ''console.log(\"Fake patch 00010203\");'']"
    by (simp add: rng_eval low_rng_def upt_conv_Cons)
  have a: "fst (applyPatches (js ''Car();'') [js ''console.log(\"Fake patch 00010203\");''])
             = js ''console.log(\"Fake patch 00010203\");''"
    by code_simp
  note t = decoys_follow_real_fragments [OF h, of 1 low_rng demo_platform demo_world "js ''/a.js''" "js ''Car();''"]
  from t have 1: "fst (combinedPatches decoy_config 1 low_rng) = patches decoy_config @ fst (generateFakePatches 1 low_rng)"
    by blast
  from t r c0 n have "patchedFile (fst (loadAndPatch demo_platform (js ''/a.js'') decoy_config demo_world))
      = fst (applyPatches (js ''Car();'')
               (patches decoy_config @ fst (generateFakePatches (markerCount (js ''Car();'')) (entropy demo_world))))"
    by blast
  then have 2: "patchedFile (fst (loadAndPatch demo_platform (js ''/a.js'') decoy_config demo_world))
      = js ''console.log(\"Fake patch 00010203\");''"
    by (simp only: p c w e a append_Nil)
  from 1 have 3: "fst (combinedPatches decoy_config 1 low_rng) = [js ''console.log(\"Fake patch 00010203\");'']"
    by (simp only: p e append_Nil)
  from h r c 3 2 show ?thesis by (intro conjI)
qed

text \<open>
  C3, as the code has it. The tokens are drawn once in a call, when the five templates are
  built, and not once in a draw; the third template holds none. A call whose every draw
  picks the third template (\<open>Math.floor(Math.random() * 5)\<close> is 2) returns \<open>n\<close> copies of
  it, whatever the random bytes are, and two such calls return the same sequence.
\<close>

theorem decoys_repeat_when_draws_agree:
  assumes "\<forall>i<n. fst (Math_floor_random 5 (r\<lparr>doubles_used := Suc (doubles_used r) + i\<rparr>)) = 2"
    and "\<forall>i<n. fst (Math_floor_random 5 (r'\<lparr>doubles_used := Suc (doubles_used r') + i\<rparr>)) = 2"
  shows "fst (generateFakePatches n r) = replicate n conditionalTemplate \<and>
         fst (generateFakePatches n r') = fst (generateFakePatches n r)"
  using assms by (simp add: generateFakePatches_third)

theorem decoys_repeat_when_draws_agree_witness:
  "fst (Math_floor_random 5 \<lparr>doubles = (\<lambda>i. 2 ^ 52), octets = (\<lambda>i. of_nat i), doubles_used = 1, octets_used = 0\<rparr>) = 2 \<and>
   fst (generateFakePatches 3 \<lparr>doubles = (\<lambda>i. 2 ^ 52), octets = (\<lambda>i. of_nat i), doubles_used = 0, octets_used = 0\<rparr>)
     = [conditionalTemplate, conditionalTemplate, conditionalTemplate] \<and>
   fst (generateFakePatches 3 \<lparr>doubles = (\<lambda>i. 2 ^ 52), octets = (\<lambda>i. of_nat (i + 100)), doubles_used = 0, octets_used = 0\<rparr>)
     = fst (generateFakePatches 3 \<lparr>doubles = (\<lambda>i. 2 ^ 52), octets = (\<lambda>i. of_nat i), doubles_used = 0, octets_used = 0\<rparr>)"
proof -
  let ?r = "\<lparr>doubles = (\<lambda>i. 2 ^ 52), octets = (\<lambda>i. of_nat i), doubles_used = 0, octets_used = 0\<rparr>"
  let ?r' = "\<lparr>doubles = (\<lambda>i. 2 ^ 52), octets = (\<lambda>i. of_nat (i + 100)), doubles_used = 0, octets_used = 0\<rparr>"
  have h: "\<forall>i<3. fst (Math_floor_random 5 (?r\<lparr>doubles_used := Suc (doubles_used ?r) + i\<rparr>)) = 2"
    by (simp add: Math_floor_random_def round_double_def double_shift.simps)
  have h': "\<forall>i<3. fst (Math_floor_random 5 (?r'\<lparr>doubles_used := Suc (doubles_used ?r') + i\<rparr>)) = 2"
    by (simp add: Math_floor_random_def round_double_def double_shift.simps)
  have d: "fst (Math_floor_random 5 (?r\<lparr>doubles_used := 1\<rparr>)) = 2"
    by (simp add: Math_floor_random_def round_double_def double_shift.simps)
  from decoys_repeat_when_draws_agree [OF h h'] d show ?thesis
    by (simp add: numeral_3_eq_3)
qed

text \<open>
  C3 as stated fails: two calls in a row, the second on the state the first has left (other
  values of \<open>Math.random()\<close> and other random bytes), return the same two decoys.
\<close>

theorem decoy_freshness_counterexample:
  "fst (generateFakePatches 2 middling_rng) = [conditionalTemplate, conditionalTemplate] \<and>
   fst (generateFakePatches 2 (snd (generateFakePatches 2 middling_rng)))
     = [conditionalTemplate, conditionalTemplate] \<and>
   octets_used (snd (generateFakePatches 2 middling_rng)) = 18 \<and>
   doubles_used (snd (generateFakePatches 2 middling_rng)) = 3"
proof -
  let ?r = "snd (generateFakePatches 2 middling_rng)"
  have u: "doubles_used middling_rng = 0" "octets_used middling_rng = 0"
    by (simp_all add: middling_rng_def)
  have r: "?r = middling_rng\<lparr>octets_used := 18, doubles_used := 3\<rparr>"
    by (simp add: generateFakePatches_rng u)
  have "\<forall>i<2. fst (Math_floor_random 5 (middling_rng\<lparr>doubles_used := Suc (doubles_used middling_rng) + i\<rparr>)) = 2"
    by (rule all_less_two)
       (simp_all add: Math_floor_random_def middling_rng_def round_double_def double_shift.simps)
  then have 1: "fst (generateFakePatches 2 middling_rng) = replicate 2 conditionalTemplate"
    by (rule generateFakePatches_third)
  have "\<forall>i<2. fst (Math_floor_random 5 (?r\<lparr>doubles_used := Suc (doubles_used ?r) + i\<rparr>)) = 2"
    unfolding r
    by (rule all_less_two)
       (simp_all add: Math_floor_random_def middling_rng_def round_double_def double_shift.simps)
  then have 2: "fst (generateFakePatches 2 ?r) = replicate 2 conditionalTemplate"
    by (rule generateFakePatches_third)
  have 3: "octets_used ?r = 18" "doubles_used ?r = 3"
    unfolding r by simp_all
  have c: "replicate 2 conditionalTemplate = [conditionalTemplate, conditionalTemplate]"
    by (simp add: numeral_2_eq_2)
  from 1 [unfolded c] 2 [unfolded c] 3 show ?thesis by (intro conjI)
qed

text \<open>
  C6, as the code has it. \<open>shuffleArray\<close> returns a permutation of its argument; with
  \<open>randomizeOrder\<close> set the list the callback reads is the shuffled combined list, shuffled
  once; and for a plan with no empty string, \<open>patchesApplied\<close> is the same for the shuffled
  plan as for the plan.
\<close>

theorem shuffle_permutes_plan:
  "mset (fst (shuffleArray plan r)) = mset plan \<and>
   (truthy (randomizeOrder config) \<longrightarrow>
      fst (preparePatches config n r)
        = fst (shuffleArray (fst (combinedPatches config n r)) (snd (combinedPatches config n r)))) \<and>
   ([] \<notin> set plan \<longrightarrow>
      snd (applyPatches doc (fst (shuffleArray plan r))) = snd (applyPatches doc plan))"
proof -
  have m: "mset (fst (shuffleArray plan r)) = mset plan" by (rule shuffleArray_mset)
  then have s: "set (fst (shuffleArray plan r)) = set plan" by (rule mset_eq_setD)
  from m have l: "length (fst (shuffleArray plan r)) = length plan" by (rule mset_eq_length)
  have a: "snd (applyPatches doc (fst (shuffleArray plan r))) = snd (applyPatches doc plan)"
    if "[] \<notin> set plan"
    using that s l by (simp add: applyPatches_general takeWhile_nonempty_all)
  have p: "fst (preparePatches config n r)
        = fst (shuffleArray (fst (combinedPatches config n r)) (snd (combinedPatches config n r)))"
    if "truthy (randomizeOrder config)"
    using that by (simp add: preparePatches_def split_beta)
  from m a p show ?thesis by blast
qed

theorem shuffle_permutes_plan_witness:
  "truthy (randomizeOrder shuffle_config) \<and>
   fst (preparePatches shuffle_config 1 low_rng) = [js ''B();'', js ''A();''] \<and>
   [] \<notin> set [js ''A();'', js ''B();''] \<and>
   snd (applyPatches (js ''Car();'') [js ''B();'', js ''A();''])
     = snd (applyPatches (js ''Car();'') [js ''A();'', js ''B();''])"
proof -
  have e: "fst (shuffleArray [js ''A();'', js ''B();''] low_rng) = [js ''B();'', js ''A();'']"
    by (simp add: shuffleArray_def Math_floor_random_small low_rng_def Let_def)
  have h: "[] \<notin> set [js ''A();'', js ''B();'']" by (simp add: js_def)
  have s: "truthy (randomizeOrder shuffle_config)" by (simp add: truthy_def shuffle_config_def)
  have c: "combinedPatches shuffle_config 1 low_rng = ([js ''A();'', js ''B();''], low_rng)"
    by (simp add: combinedPatches_def truthy_def shuffle_config_def)
  note t = shuffle_permutes_plan [of "[js ''A();'', js ''B();'']" low_rng shuffle_config 1 "js ''Car();''"]
  from t s have "fst (preparePatches shuffle_config 1 low_rng)
        = fst (shuffleArray (fst (combinedPatches shuffle_config 1 low_rng)) (snd (combinedPatches shuffle_config 1 low_rng)))"
    by blast
  then have 1: "fst (preparePatches shuffle_config 1 low_rng) = [js ''B();'', js ''A();'']"
    by (simp only: c fst_conv snd_conv e)
  from t h
  have "snd (applyPatches (js ''Car();'') (fst (shuffleArray [js ''A();'', js ''B();''] low_rng)))
          = snd (applyPatches (js ''Car();'') [js ''A();'', js ''B();''])" by blast
  then have 2: "snd (applyPatches (js ''Car();'') [js ''B();'', js ''A();''])
     = snd (applyPatches (js ''Car();'') [js ''A();'', js ''B();''])"
    by (simp only: e)
  from s 1 h 2 show ?thesis by (intro conjI)
qed

text \<open>
  C6 as stated fails for a plan with an empty string: the plan \<open>["X();", ""]\<close> fills one of
  two markers, its shuffle \<open>["", "X();"]\<close> fills none.
\<close>

theorem shuffle_keeps_count_counterexample:
  "fst (shuffleArray [js ''X();'', []] low_rng) = [[], js ''X();''] \<and>
   applyPatches (js ''Car();\<newline>Car();'') [js ''X();'', []] = (js ''X();\<newline>Car();'', 1) \<and>
   applyPatches (js ''Car();\<newline>Car();'') (fst (shuffleArray [js ''X();'', []] low_rng))
     = (js ''Car();\<newline>Car();'', 0)"
proof -
  have e: "fst (shuffleArray [js ''X();'', []] low_rng) = [[], js ''X();'']"
    by (simp add: shuffleArray_def Math_floor_random_small low_rng_def Let_def)
  have a: "applyPatches (js ''Car();\<newline>Car();'') [js ''X();'', []] = (js ''X();\<newline>Car();'', 1)"
    by code_simp
  have b: "applyPatches (js ''Car();\<newline>Car();'') [[], js ''X();''] = (js ''Car();\<newline>Car();'', 0)"
    by code_simp
  from e a b show ?thesis by simp
qed

subsection \<open>The outcome\<close>

text \<open>
  C5, as the code has it. No function reads \<open>preserveOriginal\<close>: what \<open>loadAndPatch\<close> and
  \<open>runWithPatches\<close> do is the same whatever the flag is, and \<open>originalFile\<close> is the content
  of the file whenever the file can be read, in every outcome that they give.
\<close>

theorem preserveOriginal_is_ignored:
  "loadAndPatch P filePath (config\<lparr>preserveOriginal := b\<rparr>) w = loadAndPatch P filePath config w \<and>
   runWithPatches P filePath (config\<lparr>preserveOriginal := b\<rparr>) ctx w = runWithPatches P filePath config ctx w \<and>
   (readFile P (host w) filePath = Inr doc \<longrightarrow>
      originalFile (fst (loadAndPatch P filePath config w)) = doc \<and>
      (\<forall>result. fst (runWithPatches P filePath config ctx w) = Fulfilled result \<longrightarrow>
         originalFile result = doc))"
proof (intro conjI impI allI)
  show "loadAndPatch P filePath (config\<lparr>preserveOriginal := b\<rparr>) w = loadAndPatch P filePath config w"
    by (rule loadAndPatch_preserveOriginal)
  show "runWithPatches P filePath (config\<lparr>preserveOriginal := b\<rparr>) ctx w
      = runWithPatches P filePath config ctx w"
    by (simp only: runWithPatches_def loadAndPatch_preserveOriginal)
next
  assume "readFile P (host w) filePath = Inr doc"
  then show o: "originalFile (fst (loadAndPatch P filePath config w)) = doc"
    by (rule loadAndPatch_originalFile)
  fix result
  assume "fst (runWithPatches P filePath config ctx w) = Fulfilled result"
  from runWithPatches_originalFile [OF this] o show "originalFile result = doc"
    by (simp only:)
qed

theorem preserveOriginal_is_ignored_witness:
  "readFile demo_platform (host demo_world) (js ''/a.js'') = Inr (js ''Car();'') \<and>
   originalFile (fst (loadAndPatch demo_platform (js ''/a.js'') (plain_config [js ''X();'']) demo_world)) = js ''Car();''"
proof -
  have h: "readFile demo_platform (host demo_world) (js ''/a.js'') = Inr (js ''Car();'')"
    by (simp add: demo_platform_def)
  note preserveOriginal_is_ignored [where P = demo_platform and filePath = "js ''/a.js''"
      and config = "plain_config [js ''X();'']" and w = demo_world and doc = "js ''Car();''",
      THEN conjunct2, THEN conjunct2, rule_format, OF h, THEN conjunct1]
  with h show ?thesis by (rule conjI)
qed

text \<open>
  C5 as stated fails: with \<open>preserveOriginal\<close> set to \<open>false\<close> the outcome still holds the
  original text.
\<close>

theorem preserveOriginal_counterexample:
  "preserveOriginal ((plain_config [js ''X();''])\<lparr>preserveOriginal := Some False\<rparr>) = Some False \<and>
   loadAndPatch demo_platform (js ''/a.js'') ((plain_config [js ''X();''])\<lparr>preserveOriginal := Some False\<rparr>) demo_world
     = (\<lparr>originalFile = js ''Car();'', patchedFile = js ''X();'', patchesApplied = 1,
          executionResult = None, errors = Some []\<rparr>, demo_world)"
proof -
  have m: "markerCount (js ''Car();'') \<noteq> 0" by code_simp
  have a: "applyPatches (js ''Car();'') [js ''X();''] = (js ''X();'', 1)" by code_simp
  have r: "readFile demo_platform (host demo_world) (js ''/a.js'') = Inr (js ''Car();'')"
    by (simp add: demo_platform_def)
  have p: "preparePatches ((plain_config [js ''X();''])\<lparr>preserveOriginal := Some False\<rparr>)
             (markerCount (js ''Car();'')) (entropy demo_world) = ([js ''X();''], entropy demo_world)"
    by (simp add: preparePatches_preserveOriginal preparePatches_plain)
  from loadAndPatch_patched [OF r m p a] show ?thesis by simp
qed

text \<open>
  C7. When the file can be read and no line of it is the marker (trimmed), the outcome of
  \<open>loadAndPatch\<close> and of \<open>runWithPatches\<close> holds the input as original and as patched text,
  \<open>patchesApplied = 0\<close> and the one error \<open>No Car(); markers found in file\<close>; it is a value
  that the function returns, and the state is as it was. By \<open>markerCount_zero_iff\<close> these
  are all the documents for which the code takes this branch.
\<close>

theorem no_markers_is_reported:
  assumes "readFile P (host w) filePath = Inr doc"
    and "\<forall>line\<in>set (split_lines doc). trim line \<noteq> CAR_MARKER"
  shows "loadAndPatch P filePath config w =
           (\<lparr>originalFile = doc, patchedFile = doc, patchesApplied = 0, executionResult = None,
             errors = Some [js ''No Car(); markers found in file'']\<rparr>, w) \<and>
         runWithPatches P filePath config ctx w =
           (Fulfilled \<lparr>originalFile = doc, patchedFile = doc, patchesApplied = 0, executionResult = None,
                       errors = Some [js ''No Car(); markers found in file'']\<rparr>, w)"
proof -
  from assms(2) have "markerCount doc = 0" by (rule no_marker_line_no_match)
  from loadAndPatch_no_markers [OF assms(1) this, of config]
  show ?thesis by (simp add: runWithPatches_def hasErrors_def js_def)
qed

theorem no_markers_is_reported_witness:
  "readFile demo_platform (host demo_world) (js ''/c.js'') = Inr (js ''f(); // Car();'') \<and>
   split_lines (js ''f(); // Car();'') = [js ''f(); // Car();''] \<and>
   trim (js ''f(); // Car();'') = js ''f(); // Car();'' \<and>
   runWithPatches demo_platform (js ''/c.js'') (plain_config [js ''X();'']) Map.empty demo_world =
     (Fulfilled \<lparr>originalFile = js ''f(); // Car();'', patchedFile = js ''f(); // Car();'',
                 patchesApplied = 0, executionResult = None,
                 errors = Some [js ''No Car(); markers found in file'']\<rparr>, demo_world)"
proof -
  have r: "readFile demo_platform (host demo_world) (js ''/c.js'') = Inr (js ''f(); // Car();'')"
    by (simp add: demo_platform_def js_def)
  have s: "split_lines (js ''f(); // Car();'') = [js ''f(); // Car();'']"
    by code_simp
  have m: "trim (js ''f(); // Car();'') = js ''f(); // Car();''"
    by code_simp
  have n: "js ''f(); // Car();'' \<noteq> CAR_MARKER"
    by code_simp
  have l: "\<forall>line\<in>set (split_lines (js ''f(); // Car();'')). trim line \<noteq> CAR_MARKER"
    by (simp add: s m n)
  from no_markers_is_reported [OF r l, of "plain_config [js ''X();'']" Map.empty] r s m
  show ?thesis by blast
qed

subsection \<open>Execution\<close>




subsection \<open>The batch\<close>




end
